theory Spec2Isabelle
  imports Main "HOL-Library.Word" "HOL-Library.Signed_Division" "HOL-Library.Sublist"
begin

unbundle bit_operations_syntax

section \<open>The ESC/POS printer driver (printer.c)\<close>

text \<open>
  A shallow embedding of \<^verbatim>\<open>printer.c\<close>. C \<^verbatim>\<open>int\<close> values are mathematical
  integers; \<^verbatim>\<open>/\<close> and \<^verbatim>\<open>%\<close> truncate towards zero (\<open>sdiv\<close>, \<open>smod\<close>). Bytes
  (\<^verbatim>\<open>char\<close>, \<^verbatim>\<open>unsigned char\<close>) are 8-bit words. Arrays are lists; a pointer into
  an array is the array together with an offset. Everything that stops a call before
  it returns is a \<open>fault\<close>: a failed \<^verbatim>\<open>assert\<close>, an access outside an array, the
  use of a variable that was never assigned, and a \<^verbatim>\<open>send\<close> for which the scripted
  socket has no outcome left.
\<close>

type_synonym byte = "8 word"

datatype fault = AssertionFailed | OutOfBounds | Uninitialised | NoMoreOutcomes

subsection \<open>Constants of constants.h\<close>

text \<open>
  The header \<^verbatim>\<open>constants.h\<close> is not among the sources. The dimensions and command
  strings it defines are parameters of the model.
\<close>

record config =
  ESCPOS_MAX_DOT_WIDTH :: int
  ESCPOS_CHUNK_DOT_HEIGHT :: int
  ESCPOS_CHUNK_OVERLAP :: int
  ESCPOS_CMD_DEFINE_DL_BIT_IMAGE :: "byte list"
  ESCPOS_CMD_PRINT_DL_BIT_IMAGE :: "byte list"

text \<open>
  Modelled from the spec: the component counts \<^verbatim>\<open>ESCPOS_COMP_G\<close>, \<^verbatim>\<open>ESCPOS_COMP_GA\<close>,
  \<^verbatim>\<open>ESCPOS_COMP_RGB\<close>, \<^verbatim>\<open>ESCPOS_COMP_RGBA\<close> of the missing \<^verbatim>\<open>constants.h\<close>; the
  spec's data model gives 1 (gray), 2 (gray+alpha), 3 (RGB), 4 (RGBA).
\<close>

definition ESCPOS_COMP_G :: int where "ESCPOS_COMP_G = 1"
definition ESCPOS_COMP_GA :: int where "ESCPOS_COMP_GA = 2"
definition ESCPOS_COMP_RGB :: int where "ESCPOS_COMP_RGB = 3"
definition ESCPOS_COMP_RGBA :: int where "ESCPOS_COMP_RGBA = 4"

subsection \<open>Memory access and the for statement\<close>

text \<open>Reading \<^verbatim>\<open>mem[i]\<close>: outside the array the behaviour is undefined, here a fault.\<close>

definition rd :: "byte list \<Rightarrow> int \<Rightarrow> fault + byte" where
  "rd mem i = (if 0 \<le> i \<and> i < int (length mem) then Inr (mem ! nat i) else Inl OutOfBounds)"

text \<open>\<^verbatim>\<open>for (int i = i0; i < n; i++) body\<close>, where the body may fault.\<close>

function for_loop :: "int \<Rightarrow> int \<Rightarrow> (int \<Rightarrow> 's \<Rightarrow> fault + 's) \<Rightarrow> 's \<Rightarrow> fault + 's" where
  "for_loop i n body s =
     (if i < n then
        (case body i s of Inl e \<Rightarrow> Inl e | Inr s' \<Rightarrow> for_loop (i + 1) n body s')
      else Inr s)"
  by pat_completeness auto
termination
  by (relation "measure (\<lambda>(i, n, body, s). nat (n - i))") auto

declare for_loop.simps [simp del]

subsection \<open>set_bit, convert_to_bit, calculate_padding\<close>

text \<open>
  \<^verbatim>\<open>set_bit(byte, i, bit)\<close> returns the new value of \<^verbatim>\<open>*byte\<close>. The name
  \<open>set_bit\<close> is taken by the library.
\<close>

definition set_bit_c :: "byte \<Rightarrow> int \<Rightarrow> int \<Rightarrow> fault + byte" where
  "set_bit_c b i bit_v =
     (if \<not> (i \<ge> 0 \<and> i < 8) then Inl AssertionFailed
      else if bit_v > 0 then Inr (b OR push_bit (nat i) 1)
      else Inr (b AND NOT (push_bit (nat i) 1)))"

text \<open>
  \<^verbatim>\<open>convert_to_bit(pixel, comp)\<close> with \<^verbatim>\<open>pixel = mem + p\<close>. The result carries the
  offsets of \<open>mem\<close> that were read, in order. The \<^verbatim>\<open>switch\<close> has no default: for
  any other \<open>ncomp\<close> the function returns the unassigned \<^verbatim>\<open>bit\<close>.
\<close>

definition convert_to_bit :: "byte list \<Rightarrow> int \<Rightarrow> int \<Rightarrow> fault + (int \<times> int list)" where
  "convert_to_bit mem p ncomp =
     (if \<not> ncomp > 0 then Inl AssertionFailed
      else if ncomp = ESCPOS_COMP_G \<or> ncomp = ESCPOS_COMP_GA then
        (case rd mem p of Inl e \<Rightarrow> Inl e
         | Inr px \<Rightarrow> Inr (if uint px < 128 then 1 else 0, [p]))
      else if ncomp = ESCPOS_COMP_RGB \<or> ncomp = ESCPOS_COMP_RGBA then
        (case rd mem p of Inl e \<Rightarrow> Inl e | Inr r \<Rightarrow>
         case rd mem (p + 1) of Inl e \<Rightarrow> Inl e | Inr g \<Rightarrow>
         case rd mem (p + 2) of Inl e \<Rightarrow> Inl e | Inr b \<Rightarrow>
           Inr (if (uint r + uint g + uint b) sdiv 3 < 128 then 1 else 0, [p, p + 1, p + 2]))
      else Inl Uninitialised)"

text \<open>\<^verbatim>\<open>calculate_padding(size, &l, &r)\<close> returns \<open>(l, r)\<close>.\<close>

definition calculate_padding :: "int \<Rightarrow> int \<times> int" where
  "calculate_padding size_v =
     (if size_v smod 32 = 0 then (0, 0)
      else (let padding = 32 - (size_v smod 32)
            in (padding sdiv 2, padding sdiv 2 + (if padding smod 2 = 0 then 0 else 1))))"

subsection \<open>convert_image_to_bits\<close>

text \<open>
  The two statements every loop body of the packer ends with:
  \<^verbatim>\<open>curr_byte = pi / 8; set_bit(&pixel_bits[curr_byte], 7 - (pi % 8), bit)\<close>.
\<close>

definition put_bit :: "byte list \<Rightarrow> int \<Rightarrow> int \<Rightarrow> fault + byte list" where
  "put_bit pixel_bits pi bit_v =
     (let curr_byte = pi sdiv 8 in
      if \<not> (0 \<le> curr_byte \<and> curr_byte < int (length pixel_bits)) then Inl OutOfBounds
      else case set_bit_c (pixel_bits ! nat curr_byte) (7 - (pi smod 8)) bit_v of
             Inl e \<Rightarrow> Inl e
           | Inr b \<Rightarrow> Inr (pixel_bits[nat curr_byte := b]))"

text \<open>
  The state of the packer is the output buffer \<^verbatim>\<open>pixel_bits\<close> together with the
  offsets of the image memory read so far. The three definitions below are the bodies
  of the inner loops over \<open>y\<close>: left padding, image columns, right padding.
\<close>

type_synonym pack_state = "byte list \<times> int list"

definition left_cell :: "int \<Rightarrow> int \<Rightarrow> int \<Rightarrow> pack_state \<Rightarrow> fault + pack_state" where
  "left_cell padded_h x y st =
     (case st of (pixel_bits, reads) \<Rightarrow>
        (let pi = (x * padded_h) + y in
         case put_bit pixel_bits pi 0 of Inl e \<Rightarrow> Inl e
         | Inr pixel_bits' \<Rightarrow> Inr (pixel_bits', reads)))"

definition image_cell ::
  "byte list \<Rightarrow> int \<Rightarrow> int \<Rightarrow> int \<Rightarrow> int \<Rightarrow> int \<Rightarrow> int \<Rightarrow> int \<Rightarrow> int \<Rightarrow> pack_state
     \<Rightarrow> fault + pack_state" where
  "image_cell mem image_data w h ncomp padding_l padded_h x y st =
     (case st of (pixel_bits, reads) \<Rightarrow>
        (let pi = (padding_l * padded_h) + (x * padded_h) + y in
         case (if y < h then convert_to_bit mem (image_data + (y * w * ncomp) + (x * ncomp)) ncomp
               else Inr (0, [])) of
           Inl e \<Rightarrow> Inl e
         | Inr (bit_v, rs) \<Rightarrow>
             (case put_bit pixel_bits pi bit_v of Inl e \<Rightarrow> Inl e
              | Inr pixel_bits' \<Rightarrow> Inr (pixel_bits', reads @ rs))))"

definition right_cell :: "int \<Rightarrow> int \<Rightarrow> int \<Rightarrow> int \<Rightarrow> int \<Rightarrow> pack_state \<Rightarrow> fault + pack_state" where
  "right_cell w padding_l padded_h x y st =
     (case st of (pixel_bits, reads) \<Rightarrow>
        (let pi = (padding_l * padded_h) + (w * padded_h) + (x * padded_h) + y in
         case put_bit pixel_bits pi 0 of Inl e \<Rightarrow> Inl e
         | Inr pixel_bits' \<Rightarrow> Inr (pixel_bits', reads)))"

text \<open>
  \<^verbatim>\<open>convert_image_to_bits(pixel_bits, image_data, w, h, comp, &bitmap_w, &bitmap_h)\<close>
  with \<^verbatim>\<open>image_data = mem + image_data\<close>. It returns the buffer, the offsets of
  \<open>mem\<close> it has read, \<^verbatim>\<open>bitmap_w\<close> and \<^verbatim>\<open>bitmap_h\<close>.
\<close>

definition convert_image_to_bits ::
  "byte list \<Rightarrow> byte list \<Rightarrow> int \<Rightarrow> int \<Rightarrow> int \<Rightarrow> int \<Rightarrow> fault + (byte list \<times> int list \<times> int \<times> int)" where
  "convert_image_to_bits pixel_bits mem image_data w h ncomp =
     (case calculate_padding w of (padding_l, padding_r) \<Rightarrow>
      case calculate_padding h of (padding_t, padding_b0) \<Rightarrow>
        (let padding_b = padding_b0 + padding_t;
             padded_h = h + padding_b
         in case for_loop 0 padding_l (\<lambda>x. for_loop 0 padded_h (left_cell padded_h x))
                   (pixel_bits, []) of
              Inl e \<Rightarrow> Inl e
            | Inr s1 \<Rightarrow>
           (case for_loop 0 w
                   (\<lambda>x. for_loop 0 padded_h
                          (image_cell mem image_data w h ncomp padding_l padded_h x)) s1 of
              Inl e \<Rightarrow> Inl e
            | Inr s2 \<Rightarrow>
           (case for_loop 0 padding_r
                   (\<lambda>x. for_loop 0 padded_h (right_cell w padding_l padded_h x)) s2 of
              Inl e \<Rightarrow> Inl e
            | Inr (pixel_bits', reads) \<Rightarrow>
                Inr (pixel_bits', reads, w + padding_l + padding_r, h + padding_b)))))"

subsection \<open>The socket and escpos_printer_raw\<close>

text \<open>
  \<^verbatim>\<open>last_error\<close> is the global of \<^verbatim>\<open>error_private.h\<close>; its values are the
  enumerators the source assigns.
\<close>

datatype escpos_error =
    ESCPOS_ERROR_SOCK
  | ESCPOS_ERROR_INVALID_ADDR
  | ESCPOS_ERROR_CONNECTION_FAILED
  | ESCPOS_ERROR_SEND_FAILED
  | ESCPOS_ERROR_IMAGE_UPLOAD_FAILED
  | ESCPOS_ERROR_IMAGE_PRINT_FAILED

text \<open>
  The socket is the environment. Each call of \<^verbatim>\<open>send\<close> takes the next scripted
  outcome: it fails (returns -1), or it accepts at most \<open>n\<close> of the bytes offered.
  \<open>wire\<close> holds every byte the socket has accepted, in order.
\<close>

datatype send_outcome = SendError | Accepts nat

record world =
  wire :: "byte list"
  outcomes :: "send_outcome list"
  last_error :: escpos_error

text \<open>\<^verbatim>\<open>send(sockfd, message, len, 0)\<close>, where \<open>message\<close> is the array from the pointer on.\<close>

definition send :: "world \<Rightarrow> byte list \<Rightarrow> int \<Rightarrow> fault + (int \<times> world)" where
  "send s message len =
     (case outcomes s of
        [] \<Rightarrow> Inl NoMoreOutcomes
      | SendError # rest \<Rightarrow> Inr (- 1, s\<lparr>outcomes := rest\<rparr>)
      | Accepts n # rest \<Rightarrow>
          if int (length message) < len then Inl OutOfBounds
          else (let k = min n (nat len)
                in Inr (int k, s\<lparr>wire := wire s @ take k message, outcomes := rest\<rparr>)))"

lemma send_consumes:
  "send s message len = Inr (bytes, s') \<Longrightarrow> length (outcomes s') < length (outcomes s)"
  by (auto simp: send_def Let_def split: list.splits send_outcome.splits if_splits)

text \<open>The \<^verbatim>\<open>while (sent < total)\<close> loop of \<^verbatim>\<open>escpos_printer_raw\<close>; it returns \<open>sent\<close>.\<close>

function raw_loop :: "byte list \<Rightarrow> int \<Rightarrow> int \<Rightarrow> world \<Rightarrow> fault + (int \<times> world)" where
  "raw_loop message total_v sent s =
     (if sent < total_v then
        (case send s message total_v of
           Inl e \<Rightarrow> Inl e
         | Inr (bytes, s') \<Rightarrow>
             if bytes = - 1 then Inr (sent, s'\<lparr>last_error := ESCPOS_ERROR_SEND_FAILED\<rparr>)
             else raw_loop message total_v (sent + bytes) s')
      else Inr (sent, s))"
  by pat_completeness auto
termination
  by (relation "measure (\<lambda>(message, total_v, sent, s). length (outcomes s))")
     (auto dest: send_consumes)

declare raw_loop.simps [simp del]

definition escpos_printer_raw :: "byte list \<Rightarrow> int \<Rightarrow> world \<Rightarrow> fault + (int \<times> world)" where
  "escpos_printer_raw message len s =
     (case raw_loop message len 0 s of
        Inl e \<Rightarrow> Inl e
      | Inr (sent, s') \<Rightarrow> Inr (if sent = len then 0 else 1, s'))"

lemma raw_loop_outcomes_le:
  "raw_loop message total_v sent s = Inr (r, s') \<Longrightarrow> length (outcomes s') \<le> length (outcomes s)"
proof (induction message total_v sent s rule: raw_loop.induct)
  case (1 message total_v sent s)
  show ?case
  proof (cases "sent < total_v")
    case False
    with "1.prems" show ?thesis by (simp add: raw_loop.simps)
  next
    case True
    with "1.prems" obtain bytes s1 where snd: "send s message total_v = Inr (bytes, s1)"
      by (subst (asm) raw_loop.simps) (auto split: sum.splits)
    from send_consumes [OF snd] have lt: "length (outcomes s1) < length (outcomes s)" .
    show ?thesis
    proof (cases "bytes = - 1")
      case True
      with \<open>sent < total_v\<close> snd "1.prems" lt show ?thesis
        by (subst (asm) raw_loop.simps) auto
    next
      case False
      with \<open>sent < total_v\<close> snd "1.prems"
      have "raw_loop message total_v (sent + bytes) s1 = Inr (r, s')"
        by (subst (asm) raw_loop.simps) auto
      from "1.IH" [OF \<open>sent < total_v\<close> snd refl False this] lt show ?thesis by simp
    qed
  qed
qed

lemma raw_loop_consumes:
  assumes "raw_loop message total_v sent s = Inr (r, s')" and "sent < total_v"
  shows "length (outcomes s') < length (outcomes s)"
proof -
  from assms obtain bytes s1 where snd: "send s message total_v = Inr (bytes, s1)"
    by (subst (asm) raw_loop.simps) (auto split: sum.splits)
  from send_consumes [OF snd] have lt: "length (outcomes s1) < length (outcomes s)" .
  show ?thesis
  proof (cases "bytes = - 1")
    case True
    with assms snd lt show ?thesis by (subst (asm) raw_loop.simps) auto
  next
    case False
    with assms snd have "raw_loop message total_v (sent + bytes) s1 = Inr (r, s')"
      by (subst (asm) raw_loop.simps) auto
    from raw_loop_outcomes_le [OF this] lt show ?thesis by simp
  qed
qed

lemma escpos_printer_raw_consumes:
  "escpos_printer_raw message len s = Inr (r, s') \<Longrightarrow> 0 < len \<Longrightarrow>
     length (outcomes s') < length (outcomes s)"
  by (auto simp: escpos_printer_raw_def split: sum.splits dest: raw_loop_consumes)

subsection \<open>escpos_printer_upload and escpos_printer_print\<close>

text \<open>
  \<^verbatim>\<open>strncpy(dst, src, n)\<close> for a source that is a string literal, given as the
  bytes of its array: the characters up to the first NUL are copied, at most \<open>n\<close> of
  them, and the rest of the \<open>n\<close> bytes is filled with NUL.
\<close>

definition strncpy :: "byte list \<Rightarrow> nat \<Rightarrow> byte list" where
  "strncpy src n =
     (let cs = take n (takeWhile (\<lambda>c. c \<noteq> 0) src) in cs @ replicate (n - length cs) 0)"

text \<open>
  The \<^verbatim>\<open>for\<close> loop of \<^verbatim>\<open>escpos_printer_upload\<close> with its \<^verbatim>\<open>break\<close>; it
  returns \<^verbatim>\<open>result\<close>. \<open>n\<close> is the bound \<^verbatim>\<open>(w * (h / 8)) / 4\<close>.
\<close>

function upload_loop :: "byte list \<Rightarrow> int \<Rightarrow> int \<Rightarrow> int \<Rightarrow> world \<Rightarrow> fault + (int \<times> world)" where
  "upload_loop pixel_bits i n result s =
     (if i < n then
        (case escpos_printer_raw (drop (nat (i * 4)) pixel_bits) 4 s of
           Inl e \<Rightarrow> Inl e
         | Inr (result', s') \<Rightarrow>
             if result' \<noteq> 0 then Inr (result', s')
             else upload_loop pixel_bits (i + 1) n result' s')
      else Inr (result, s))"
  by pat_completeness auto
termination
  by (relation "measure (\<lambda>(pixel_bits, i, n, result, s). nat (n - i))") auto

declare upload_loop.simps [simp del]

definition escpos_printer_upload ::
  "config \<Rightarrow> byte list \<Rightarrow> int \<Rightarrow> int \<Rightarrow> world \<Rightarrow> fault + (int \<times> world)" where
  "escpos_printer_upload cfg pixel_bits w h s =
     (if \<not> (w > 0 \<and> w \<le> ESCPOS_CHUNK_DOT_HEIGHT cfg) then Inl AssertionFailed
      else if \<not> (h > 0 \<and> h \<le> ESCPOS_CHUNK_DOT_HEIGHT cfg) then Inl AssertionFailed
      else if \<not> w smod 32 = 0 then Inl AssertionFailed
      else if \<not> h smod 32 = 0 then Inl AssertionFailed
      else
        (let buffer = strncpy (ESCPOS_CMD_DEFINE_DL_BIT_IMAGE cfg) 2
                        @ [word_of_int (w sdiv 8), word_of_int (h sdiv 8)]
         in case escpos_printer_raw buffer 4 s of
              Inl e \<Rightarrow> Inl e
            | Inr (result, s1) \<Rightarrow>
                (case (if result = 0
                       then upload_loop pixel_bits 0 ((w * (h sdiv 8)) sdiv 4) result s1
                       else Inr (result, s1)) of
                   Inl e \<Rightarrow> Inl e
                 | Inr (result', s2) \<Rightarrow>
                     Inr (result',
                          if result' \<noteq> 0
                          then s2\<lparr>last_error := ESCPOS_ERROR_IMAGE_UPLOAD_FAILED\<rparr>
                          else s2))))"

definition escpos_printer_print :: "config \<Rightarrow> world \<Rightarrow> fault + (int \<times> world)" where
  "escpos_printer_print cfg s =
     (case escpos_printer_raw (ESCPOS_CMD_PRINT_DL_BIT_IMAGE cfg) 3 s of
        Inl e \<Rightarrow> Inl e
      | Inr (result, s') \<Rightarrow>
          Inr (result,
               if result \<noteq> 0 then s'\<lparr>last_error := ESCPOS_ERROR_IMAGE_PRINT_FAILED\<rparr> else s'))"

lemma upload_loop_outcomes_le:
  "upload_loop pixel_bits i n result s = Inr (r, s') \<Longrightarrow>
     length (outcomes s') \<le> length (outcomes s)"
proof (induction pixel_bits i n result s rule: upload_loop.induct)
  case (1 pixel_bits i n result s)
  show ?case
  proof (cases "i < n")
    case False
    with "1.prems" show ?thesis by (simp add: upload_loop.simps)
  next
    case True
    with "1.prems" obtain r1 s1
      where raw: "escpos_printer_raw (drop (nat (i * 4)) pixel_bits) 4 s = Inr (r1, s1)"
      by (subst (asm) upload_loop.simps) (auto split: sum.splits)
    from escpos_printer_raw_consumes [OF raw]
    have lt: "length (outcomes s1) < length (outcomes s)" by simp
    show ?thesis
    proof (cases "r1 \<noteq> 0")
      case True
      with \<open>i < n\<close> raw "1.prems" lt show ?thesis
        by (subst (asm) upload_loop.simps) auto
    next
      case False
      with \<open>i < n\<close> raw "1.prems"
      have "upload_loop pixel_bits (i + 1) n r1 s1 = Inr (r, s')"
        by (subst (asm) upload_loop.simps) auto
      from "1.IH" [OF \<open>i < n\<close> raw refl False this] lt show ?thesis by simp
    qed
  qed
qed

lemma escpos_printer_upload_consumes:
  assumes "escpos_printer_upload cfg pixel_bits w h s = Inr (r, s')"
  shows "length (outcomes s') < length (outcomes s)"
proof -
  let ?buffer = "strncpy (ESCPOS_CMD_DEFINE_DL_BIT_IMAGE cfg) 2
                   @ [word_of_int (w sdiv 8), word_of_int (h sdiv 8)]"
  from assms obtain r1 s1 where raw: "escpos_printer_raw ?buffer 4 s = Inr (r1, s1)"
    by (auto simp: escpos_printer_upload_def Let_def split: if_splits sum.splits)
  from escpos_printer_raw_consumes [OF raw]
  have lt: "length (outcomes s1) < length (outcomes s)" by simp
  from assms raw obtain s2 where
    "(if r1 = 0 then upload_loop pixel_bits 0 ((w * (h sdiv 8)) sdiv 4) r1 s1 else Inr (r1, s1))
       = Inr (r, s2)" and s': "outcomes s' = outcomes s2"
    by (auto simp: escpos_printer_upload_def Let_def split: if_splits sum.splits)
  then have "length (outcomes s2) \<le> length (outcomes s1)"
    by (auto split: if_splits dest: upload_loop_outcomes_le)
  with lt s' show ?thesis by simp
qed

lemma escpos_printer_print_consumes:
  "escpos_printer_print cfg s = Inr (r, s') \<Longrightarrow> length (outcomes s') < length (outcomes s)"
  by (auto simp: escpos_printer_print_def split: sum.splits if_splits
           dest!: escpos_printer_raw_consumes)

subsection \<open>escpos_printer_image\<close>

text \<open>What \<^verbatim>\<open>stbi_load\<close> delivers: the dimensions, the component count and the pixel bytes.\<close>

record image =
  img_width :: int
  img_height :: int
  img_comp :: int
  img_data :: "byte list"

text \<open>The expression assigned to \<^verbatim>\<open>chunk_height\<close> at cursor \<open>y\<close>.\<close>

definition chunk_height :: "config \<Rightarrow> int \<Rightarrow> int \<Rightarrow> int" where
  "chunk_height cfg height y =
     (if (y + 1) * ESCPOS_CHUNK_DOT_HEIGHT cfg \<le> height then ESCPOS_CHUNK_DOT_HEIGHT cfg
      else height - (y * ESCPOS_CHUNK_DOT_HEIGHT cfg))"

text \<open>
  The body of the \<^verbatim>\<open>while\<close> loop up to the test of \<^verbatim>\<open>result\<close>: pack the chunk at
  cursor \<open>y\<close>, upload it and, if that succeeded, print it. It returns \<^verbatim>\<open>result\<close>,
  the buffer and the world.
\<close>

definition image_round ::
  "config \<Rightarrow> image \<Rightarrow> byte list \<Rightarrow> int \<Rightarrow> world \<Rightarrow> fault + (int \<times> byte list \<times> world)" where
  "image_round cfg im pixel_bits y s =
     (let print_height = ESCPOS_CHUNK_DOT_HEIGHT cfg - ESCPOS_CHUNK_OVERLAP cfg in
      case convert_image_to_bits pixel_bits (img_data im)
             (y * print_height * img_width im * img_comp im)
             (img_width im) (chunk_height cfg (img_height im) y) (img_comp im) of
        Inl e \<Rightarrow> Inl e
      | Inr (pixel_bits', reads, bitmap_w, bitmap_h) \<Rightarrow>
          (case escpos_printer_upload cfg pixel_bits' bitmap_w bitmap_h s of
             Inl e \<Rightarrow> Inl e
           | Inr (result, s1) \<Rightarrow>
               (case (if result = 0 then escpos_printer_print cfg s1 else Inr (result, s1)) of
                  Inl e \<Rightarrow> Inl e
                | Inr (result', s2) \<Rightarrow> Inr (result', pixel_bits', s2))))"

lemma image_round_consumes:
  assumes "image_round cfg im pixel_bits y s = Inr (r, pixel_bits', s')"
  shows "length (outcomes s') < length (outcomes s)"
proof -
  from assms obtain pb w h r1 s1 where
    up: "escpos_printer_upload cfg pb w h s = Inr (r1, s1)" and
    pr: "(if r1 = 0 then escpos_printer_print cfg s1 else Inr (r1, s1)) = Inr (r, s')"
    by (auto simp: image_round_def Let_def split: sum.splits prod.splits)
  from escpos_printer_upload_consumes [OF up]
  have "length (outcomes s1) < length (outcomes s)" .
  moreover from pr have "length (outcomes s') \<le> length (outcomes s1)"
    by (auto split: if_splits dest: escpos_printer_print_consumes)
  ultimately show ?thesis by simp
qed

text \<open>
  The \<^verbatim>\<open>while (y * print_height < height)\<close> loop; it returns \<^verbatim>\<open>result\<close>, the
  final cursor \<open>y\<close> and the world.
\<close>

function image_loop ::
  "config \<Rightarrow> image \<Rightarrow> byte list \<Rightarrow> int \<Rightarrow> int \<Rightarrow> world \<Rightarrow> fault + (int \<times> int \<times> world)" where
  "image_loop cfg im pixel_bits y result s =
     (if y * (ESCPOS_CHUNK_DOT_HEIGHT cfg - ESCPOS_CHUNK_OVERLAP cfg) < img_height im then
        (case image_round cfg im pixel_bits y s of
           Inl e \<Rightarrow> Inl e
         | Inr (result', pixel_bits', s') \<Rightarrow>
             if result' \<noteq> 0 then Inr (result', y, s')
             else image_loop cfg im pixel_bits' (y + 1) result' s')
      else Inr (result, y, s))"
  by pat_completeness auto
termination
  by (relation "measure (\<lambda>(cfg, im, pixel_bits, y, result, s). length (outcomes s))")
     (auto dest: image_round_consumes)

declare image_loop.simps [simp del]

text \<open>
  \<^verbatim>\<open>escpos_printer_image\<close>. The decoder is the environment: \<open>decoded\<close> is \<open>None\<close>
  when \<^verbatim>\<open>stbi_load\<close> returns \<^verbatim>\<open>NULL\<close>. \<open>junk\<close> is what the stack holds where the
  unassigned array \<^verbatim>\<open>pixel_bits\<close> is laid out.
\<close>

definition escpos_printer_image ::
  "config \<Rightarrow> image option \<Rightarrow> (nat \<Rightarrow> byte) \<Rightarrow> world \<Rightarrow> fault + (int \<times> world)" where
  "escpos_printer_image cfg decoded junk s =
     (case decoded of
        None \<Rightarrow> Inr (0, s)
      | Some im \<Rightarrow>
          (let byte_width = ESCPOS_MAX_DOT_WIDTH cfg sdiv 8;
               pixel_bits = map junk [0 ..< nat (byte_width * ESCPOS_CHUNK_DOT_HEIGHT cfg)]
           in case image_loop cfg im pixel_bits 0 0 s of
                Inl e \<Rightarrow> Inl e
              | Inr (result, y, s') \<Rightarrow> Inr (result, s')))"

subsection \<open>Reading the packed bitmap\<close>

text \<open>
  The bit of the packed bitmap with index \<open>pi\<close>: byte \<open>pi div 8\<close>, most significant
  bit first.
\<close>

definition get_bit :: "byte list \<Rightarrow> int \<Rightarrow> bool" where
  "get_bit pixel_bits pi = bit (pixel_bits ! nat (pi div 8)) (nat (7 - pi mod 8))"

text \<open>The sample of the pixel at \<open>mem + p\<close> is a mark.\<close>

definition dark :: "byte list \<Rightarrow> int \<Rightarrow> int \<Rightarrow> bool" where
  "dark mem p ncomp = (case convert_to_bit mem p ncomp of Inl e \<Rightarrow> False | Inr (b, rs) \<Rightarrow> 0 < b)"

text \<open>
  The invariant of the packer once the bits below index \<open>k\<close> are written: the buffer
  keeps its length, the bits below \<open>k\<close> are as \<open>ex\<close> says, the bits from \<open>k\<close> on are
  those of the buffer \<open>bits0\<close> the packer was given, and every offset read satisfies
  \<open>ok\<close>.
\<close>

definition packed_upto ::
  "(int \<Rightarrow> bool) \<Rightarrow> (int \<Rightarrow> bool) \<Rightarrow> byte list \<Rightarrow> int \<Rightarrow> pack_state \<Rightarrow> bool" where
  "packed_upto ex ok bits0 k st =
     (length (fst st) = length bits0
      \<and> (\<forall>pi. 0 \<le> pi \<and> pi < k \<longrightarrow> get_bit (fst st) pi = ex pi)
      \<and> (\<forall>pi. k \<le> pi \<longrightarrow> get_bit (fst st) pi = get_bit bits0 pi)
      \<and> (\<forall>off \<in> set (snd st). ok off))"

text \<open>
  The pixel at column \<open>col\<close> and row \<open>row\<close> of the padded bitmap: blank in the padding
  columns and in the rows from \<open>h\<close> on, the sample of the image pixel elsewhere.
\<close>

definition padded_pixel ::
  "byte list \<Rightarrow> int \<Rightarrow> int \<Rightarrow> int \<Rightarrow> int \<Rightarrow> int \<Rightarrow> int \<Rightarrow> int \<Rightarrow> bool" where
  "padded_pixel mem image_data w h ncomp padding_l col row =
     (padding_l \<le> col \<and> col < padding_l + w \<and> row < h
      \<and> dark mem (image_data + (row * w * ncomp) + ((col - padding_l) * ncomp)) ncomp)"


subsection \<open>Rounds of the chunking loop\<close>

text \<open>
  \<open>run_rounds cfg im y n\<close> performs the \<open>n\<close> rounds at the cursors \<open>y\<close>, \<open>y + 1\<close>,
  ... in this order, each a packing, an upload and a print. It is \<open>Some\<close> of the
  buffer and the world they leave when every one of them returned 0, and \<open>None\<close>
  otherwise.
\<close>

fun run_rounds ::
  "config \<Rightarrow> image \<Rightarrow> int \<Rightarrow> nat \<Rightarrow> byte list \<Rightarrow> world \<Rightarrow> (byte list \<times> world) option" where
  "run_rounds cfg im y 0 pixel_bits s = Some (pixel_bits, s)"
| "run_rounds cfg im y (Suc n) pixel_bits s =
     (case image_round cfg im pixel_bits y s of
        Inl e \<Rightarrow> None
      | Inr (result, pixel_bits', s') \<Rightarrow>
          if result = 0 then run_rounds cfg im (y + 1) n pixel_bits' s' else None)"

subsection \<open>An example configuration\<close>

text \<open>
  Values for the constants, used where a property is evaluated at a concrete input.
  The command strings are those of the ESC/POS commands \<^verbatim>\<open>GS *\<close> and \<^verbatim>\<open>GS /\<close>,
  as arrays with their terminating NUL.
\<close>

definition demo_config :: config where
  "demo_config = \<lparr>ESCPOS_MAX_DOT_WIDTH = 512, ESCPOS_CHUNK_DOT_HEIGHT = 256,
     ESCPOS_CHUNK_OVERLAP = 8,
     ESCPOS_CMD_DEFINE_DL_BIT_IMAGE = [0x1d, 0x2a, 0],
     ESCPOS_CMD_PRINT_DL_BIT_IMAGE = [0x1d, 0x2f, 0, 0]\<rparr>"

text \<open>
  A smaller configuration with chunks of 32 rows and no overlap, an image of 32 by 40
  gray pixels, which takes two chunks, and a socket that takes the 34 writes of the
  first chunk whole and fails on the next one.
\<close>

definition small_config :: config where
  "small_config = \<lparr>ESCPOS_MAX_DOT_WIDTH = 32, ESCPOS_CHUNK_DOT_HEIGHT = 32,
     ESCPOS_CHUNK_OVERLAP = 0,
     ESCPOS_CMD_DEFINE_DL_BIT_IMAGE = [0x1d, 0x2a, 0],
     ESCPOS_CMD_PRINT_DL_BIT_IMAGE = [0x1d, 0x2f, 0, 0]\<rparr>"

definition tall_image :: image where
  "tall_image = \<lparr>img_width = 32, img_height = 40, img_comp = 1, img_data = replicate 1280 0\<rparr>"

definition second_upload_fails :: world where
  "second_upload_fails =
     \<lparr>wire = [],
      outcomes = Accepts 4 # map Accepts (replicate 32 4) @ [Accepts 3, SendError],
      last_error = ESCPOS_ERROR_SOCK\<rparr>"

text \<open>
  The same configuration with an overlap of 8 rows, an image of 32 by 32 gray pixels,
  and a socket that takes whole each of the 68 writes of two chunks.
\<close>

definition overlap_config :: config where
  "overlap_config = \<lparr>ESCPOS_MAX_DOT_WIDTH = 32, ESCPOS_CHUNK_DOT_HEIGHT = 32,
     ESCPOS_CHUNK_OVERLAP = 8,
     ESCPOS_CMD_DEFINE_DL_BIT_IMAGE = [0x1d, 0x2a, 0],
     ESCPOS_CMD_PRINT_DL_BIT_IMAGE = [0x1d, 0x2f, 0, 0]\<rparr>"

definition square_image :: image where
  "square_image = \<lparr>img_width = 32, img_height = 32, img_comp = 1, img_data = replicate 1024 0\<rparr>"

definition every_write_accepted :: world where
  "every_write_accepted =
     \<lparr>wire = [],
      outcomes = Accepts 4 # map Accepts (replicate 32 4)
                 @ Accepts 3 # Accepts 4 # map Accepts (replicate 32 4) @ [Accepts 3],
      last_error = ESCPOS_ERROR_SOCK\<rparr>"

definition both_chunks_accepted :: world where
  "both_chunks_accepted =
     \<lparr>wire = [],
      outcomes = Accepts 4 # map Accepts (replicate 32 4)
                 @ Accepts 3 # Accepts 4 # map Accepts (replicate 32 4) @ [Accepts 3],
      last_error = ESCPOS_ERROR_SOCK\<rparr>"

section \<open>Properties\<close>

subsection \<open>Truncating division on non-negative operands\<close>

lemma smod_nonneg: "0 \<le> a \<Longrightarrow> 0 \<le> b \<Longrightarrow> (a::int) smod b = a mod b"
  by (simp add: smod_int_alt_def sgn_if)

lemma sdiv_nonneg: "0 \<le> a \<Longrightarrow> 0 \<le> b \<Longrightarrow> (a::int) sdiv b = a div b"
  by (simp add: signed_divide_int_def sgn_if)

lemma rd_in_range: "0 \<le> i \<Longrightarrow> i < int (length mem) \<Longrightarrow> rd mem i = Inr (mem ! nat i)"
  by (simp add: rd_def)

lemma next_multiple_least:
  fixes size_v :: int
  assumes "size_v mod 32 \<noteq> 0" and "32 dvd m" and "size_v \<le> m"
  shows "size_v + (32 - size_v mod 32) \<le> m"
proof -
  from assms(2) obtain q where m: "m = 32 * q" by (auto elim: dvdE)
  have split: "size_v = 32 * (size_v div 32) + size_v mod 32" by simp
  have pos: "0 < size_v mod 32" using assms(1) pos_mod_sign [of 32 size_v] by linarith
  from assms(3) m split pos have "size_v div 32 < q" by linarith
  then have "32 * (size_v div 32) + 32 \<le> 32 * q" by linarith
  with split m show ?thesis by linarith
qed

subsection \<open>Padding calculator\<close>

text \<open>
  Claim C4. For every \<open>size \<ge> 1\<close>, \<open>calculate_padding size\<close> returns \<open>(l, r)\<close> such
  that \<open>size + l + r\<close> is a multiple of 32 and the smallest multiple of 32 that is at
  least \<open>size\<close>; \<open>l + r\<close> is 0 when \<open>size mod 32 = 0\<close> and \<open>32 - size mod 32\<close>
  otherwise; \<open>l\<close> is half of the total rounded down, \<open>r\<close> is the rest, so \<open>r\<close>
  exceeds \<open>l\<close> by exactly 1 when the total is odd and equals it otherwise.
\<close>

theorem calculate_padding_rounds_up:
  assumes "1 \<le> size_v" and "calculate_padding size_v = (l, r)"
  shows "32 dvd (size_v + l + r)
       \<and> size_v \<le> size_v + l + r
       \<and> (\<forall>m. 32 dvd m \<and> size_v \<le> m \<longrightarrow> size_v + l + r \<le> m)
       \<and> l + r = (if size_v mod 32 = 0 then 0 else 32 - size_v mod 32)
       \<and> l = (l + r) div 2
       \<and> r = (l + r) - l
       \<and> r - l = (if odd (l + r) then 1 else 0)"
proof -
  have sm: "size_v smod 32 = size_v mod 32" using assms(1) by (simp add: smod_nonneg)
  define p where "p = 32 - size_v mod 32"
  have prange: "1 \<le> p" "p \<le> 32" unfolding p_def by presburger+
  have ps: "p sdiv 2 = p div 2" "p smod 2 = p mod 2"
    using prange by (simp_all add: smod_nonneg sdiv_nonneg)
  show ?thesis
  proof (cases "size_v mod 32 = 0")
    case True
    with assms(2) have "l = 0" "r = 0" by (simp_all add: calculate_padding_def sm)
    with True show ?thesis by auto
  next
    case False
    with assms(2) have l: "l = p div 2" and r: "r = p div 2 + (if p mod 2 = 0 then 0 else 1)"
      by (auto simp add: calculate_padding_def sm Let_def ps p_def [symmetric])
    have sum: "l + r = p" unfolding l r by presburger
    have d: "32 dvd (size_v + p)" unfolding p_def by presburger
    have least: "\<forall>m. 32 dvd m \<and> size_v \<le> m \<longrightarrow> size_v + p \<le> m"
      using False unfolding p_def by (blast intro: next_multiple_least)
    have "r - l = (if odd p then 1 else 0)" unfolding l r by presburger
    with sum d least False l prange show ?thesis
      by (simp add: p_def add.assoc)
  qed
qed

theorem calculate_padding_rounds_up_witness:
  "(1::int) \<le> 33 \<and> calculate_padding 33 = (15, 16) \<and> 32 dvd ((33::int) + 15 + 16)
     \<and> \<not> (\<exists>m::int. 32 dvd m \<and> 33 \<le> m \<and> m < 33 + 15 + 16)"
  using calculate_padding_rounds_up [of 33 15 16]
  by (fastforce simp add: calculate_padding_def smod_nonneg sdiv_nonneg)

text \<open>
  Claim C5, as the code has it. \<open>calculate_padding\<close> applied to 32 yields \<open>(0, 0)\<close>,
  applied to 33 yields \<open>(15, 16)\<close> (the padding 31 split with the odd unit on the
  right), and applied to 64 yields \<open>(0, 0)\<close>.
\<close>

theorem calculate_padding_examples:
  "calculate_padding 32 = (0, 0) \<and> calculate_padding 33 = (15, 16)
     \<and> calculate_padding 64 = (0, 0)"
  by (simp add: calculate_padding_def smod_nonneg sdiv_nonneg)

text \<open>The three values as the claim lists them, with \<open>(0, 1)\<close> for 33, do not hold.\<close>

theorem calculate_padding_33_is_not_0_1:
  "\<not> (calculate_padding 32 = (0, 0) \<and> calculate_padding 33 = (0, 1)
       \<and> calculate_padding 64 = (0, 0))"
  by (simp add: calculate_padding_def smod_nonneg sdiv_nonneg)

subsection \<open>Pixel sampler\<close>

text \<open>
  Claim C6. \<open>convert_to_bit\<close> returns 1 exactly when the pixel is dark. For component
  counts 1 and 2 the result is 1 iff the first byte is below 128; for 3 and 4 it is 1
  iff \<open>(r + g + b) div 3 < 128\<close>, and only the three colour bytes are read, never the
  alpha byte.
\<close>

theorem convert_to_bit_threshold:
  "((ncomp = 1 \<or> ncomp = 2) \<longrightarrow> 0 \<le> p \<and> p < int (length mem) \<longrightarrow>
      convert_to_bit mem p ncomp = Inr (if uint (mem ! nat p) < 128 then 1 else 0, [p]))
 \<and> ((ncomp = 3 \<or> ncomp = 4) \<longrightarrow> 0 \<le> p \<and> p + 2 < int (length mem) \<longrightarrow>
      convert_to_bit mem p ncomp =
        Inr (if (uint (mem ! nat p) + uint (mem ! nat (p + 1)) + uint (mem ! nat (p + 2))) div 3 < 128
             then 1 else 0, [p, p + 1, p + 2]))"
proof (intro conjI impI)
  assume "ncomp = 1 \<or> ncomp = 2" and "0 \<le> p \<and> p < int (length mem)"
  then show "convert_to_bit mem p ncomp = Inr (if uint (mem ! nat p) < 128 then 1 else 0, [p])"
    by (auto simp: convert_to_bit_def ESCPOS_COMP_G_def ESCPOS_COMP_GA_def rd_in_range)
next
  let ?s = "uint (mem ! nat p) + uint (mem ! nat (p + 1)) + uint (mem ! nat (p + 2))"
  assume c: "ncomp = 3 \<or> ncomp = 4" and r: "0 \<le> p \<and> p + 2 < int (length mem)"
  have "0 \<le> ?s" by simp
  then have d: "?s sdiv 3 = ?s div 3" by (simp add: sdiv_nonneg)
  from r have "rd mem p = Inr (mem ! nat p)" "rd mem (p + 1) = Inr (mem ! nat (p + 1))"
    "rd mem (p + 2) = Inr (mem ! nat (p + 2))"
    by (simp_all add: rd_in_range)
  with c d show "convert_to_bit mem p ncomp = Inr (if ?s div 3 < 128 then 1 else 0, [p, p + 1, p + 2])"
    by (auto simp: convert_to_bit_def ESCPOS_COMP_G_def ESCPOS_COMP_GA_def
                   ESCPOS_COMP_RGB_def ESCPOS_COMP_RGBA_def)
qed

text \<open>A gray byte of 127 is a mark, 128 is blank; the alpha byte changes nothing.\<close>

theorem convert_to_bit_threshold_witness:
  "convert_to_bit [127] 0 1 = Inr (1, [0]) \<and> convert_to_bit [128] 0 1 = Inr (0, [0])
 \<and> convert_to_bit [127, 255] 0 2 = Inr (1, [0])
 \<and> convert_to_bit [200, 100, 83] 0 3 = Inr (1, [0, 1, 2])
 \<and> convert_to_bit [200, 100, 84, 0] 0 4 = Inr (0, [0, 1, 2])"
  using convert_to_bit_threshold [of 1 0 "[127]"] convert_to_bit_threshold [of 1 0 "[128]"]
    convert_to_bit_threshold [of 2 0 "[127, 255]"]
    convert_to_bit_threshold [of 3 0 "[200, 100, 83]"]
    convert_to_bit_threshold [of 4 0 "[200, 100, 84, 0]"]
  by simp

subsection \<open>Transport\<close>

text \<open>
  Claim C2 at two scripts of the socket. The loop offers the whole message again after
  a partial write. When the socket accepts 2 bytes and then 2 bytes of the 4-byte
  message, \<open>escpos_printer_raw\<close> returns 0 although the wire holds bytes 1, 2, 1, 2.
  When it accepts 3 bytes and then 4, \<open>sent\<close> passes \<open>total\<close>: the call returns 1
  although no write failed, and \<open>last_error\<close> is left as it was.
\<close>

theorem escpos_printer_raw_resends_from_start:
  "escpos_printer_raw [1, 2, 3, 4] 4
     \<lparr>wire = [], outcomes = [Accepts 2, Accepts 2], last_error = ESCPOS_ERROR_SOCK\<rparr>
   = Inr (0, \<lparr>wire = [1, 2, 1, 2], outcomes = [], last_error = ESCPOS_ERROR_SOCK\<rparr>)
 \<and> escpos_printer_raw [1, 2, 3, 4] 4
     \<lparr>wire = [], outcomes = [Accepts 3, Accepts 4], last_error = ESCPOS_ERROR_SOCK\<rparr>
   = Inr (1, \<lparr>wire = [1, 2, 3, 1, 2, 3, 4], outcomes = [], last_error = ESCPOS_ERROR_SOCK\<rparr>)"
  by (simp add: escpos_printer_raw_def raw_loop.simps send_def)

subsection \<open>Decoding failure\<close>

text \<open>
  Claim C10. If the decoder returns no image data, \<open>escpos_printer_image\<close> returns 0
  and leaves the world as it was: nothing is sent and \<open>last_error\<close> is not set.
\<close>

theorem escpos_printer_image_decode_failure:
  "escpos_printer_image cfg None junk s = Inr (0, s)"
  by (simp add: escpos_printer_image_def)

subsection \<open>Upload protocol\<close>

lemma raw_loop_wire_length:
  "raw_loop message total_v sent s = Inr (sent', s') \<Longrightarrow>
     int (length (wire s')) = int (length (wire s)) + sent' - sent"
proof (induction message total_v sent s rule: raw_loop.induct)
  case (1 message total_v sent s)
  show ?case
  proof (cases "sent < total_v")
    case False
    with "1.prems" show ?thesis by (simp add: raw_loop.simps)
  next
    case True
    with "1.prems" obtain bytes s1 where snd: "send s message total_v = Inr (bytes, s1)"
      by (subst (asm) raw_loop.simps) (auto split: sum.splits)
    show ?thesis
    proof (cases "bytes = - 1")
      case True
      with \<open>sent < total_v\<close> snd "1.prems" have "sent' = sent" "wire s' = wire s1"
        by (subst (asm) raw_loop.simps, auto)+
      moreover from snd True have "wire s1 = wire s"
        by (auto simp: send_def Let_def split: list.splits send_outcome.splits if_splits)
      ultimately show ?thesis by simp
    next
      case False
      with \<open>sent < total_v\<close> snd "1.prems"
      have "raw_loop message total_v (sent + bytes) s1 = Inr (sent', s')"
        by (subst (asm) raw_loop.simps) auto
      from "1.IH" [OF \<open>sent < total_v\<close> snd refl False this]
      have "int (length (wire s')) = int (length (wire s1)) + sent' - (sent + bytes)" .
      moreover from snd False have "int (length (wire s1)) = int (length (wire s)) + bytes"
        by (auto simp: send_def Let_def min_def split: list.splits send_outcome.splits if_splits)
      ultimately show ?thesis by simp
    qed
  qed
qed

lemma escpos_printer_raw_success_length:
  "escpos_printer_raw message len s = Inr (0, s') \<Longrightarrow>
     int (length (wire s')) = int (length (wire s)) + len"
  by (auto simp: escpos_printer_raw_def split: sum.splits if_splits dest: raw_loop_wire_length)

lemma upload_loop_success_length:
  "upload_loop pixel_bits i n result s = Inr (0, s') \<Longrightarrow> i \<le> n \<Longrightarrow>
     int (length (wire s')) = int (length (wire s)) + 4 * (n - i)"
proof (induction pixel_bits i n result s rule: upload_loop.induct)
  case (1 pixel_bits i n result s)
  show ?case
  proof (cases "i < n")
    case False
    with "1.prems" show ?thesis by (simp add: upload_loop.simps)
  next
    case True
    with "1.prems" obtain r1 s1
      where raw: "escpos_printer_raw (drop (nat (i * 4)) pixel_bits) 4 s = Inr (r1, s1)"
      by (subst (asm) upload_loop.simps) (auto split: sum.splits)
    from True raw "1.prems"(1) have r1: "r1 = 0"
      by (subst (asm) upload_loop.simps) (auto split: if_splits)
    with True raw "1.prems"(1) have "upload_loop pixel_bits (i + 1) n r1 s1 = Inr (0, s')"
      by (subst (asm) upload_loop.simps) auto
    from "1.IH" [OF True raw refl _ this] r1 True
    have "int (length (wire s')) = int (length (wire s1)) + 4 * (n - (i + 1))" by simp
    moreover from raw r1 have "int (length (wire s1)) = int (length (wire s)) + 4"
      by (auto dest: escpos_printer_raw_success_length)
    ultimately show ?thesis by simp
  qed
qed

lemma escpos_printer_upload_success_length:
  assumes "escpos_printer_upload cfg pixel_bits w h s = Inr (0, s')"
  shows "int (length (wire s')) = int (length (wire s)) + 4 + w * h div 8"
proof -
  from assms have a: "0 < w" "0 < h" "w smod 32 = 0" "h smod 32 = 0"
    by (auto simp: escpos_printer_upload_def split: if_splits)
  then have w32: "w mod 32 = 0" and h32: "h mod 32 = 0" by (simp_all add: smod_nonneg)
  have h8: "h sdiv 8 = h div 8" using a by (simp add: sdiv_nonneg)
  have "0 \<le> w * (h div 8)" using a by simp
  then have n: "(w * (h sdiv 8)) sdiv 4 = w * (h div 8) div 4" by (simp add: h8 sdiv_nonneg)
  obtain a' where a': "w = 32 * a'" using w32 by (metis mod_0_imp_dvd dvdE)
  obtain b' where b': "h = 32 * b'" using h32 by (metis mod_0_imp_dvd dvdE)
  have tot: "4 * (w * (h div 8) div 4) = w * h div 8" by (simp add: a' b')
  let ?buffer = "strncpy (ESCPOS_CMD_DEFINE_DL_BIT_IMAGE cfg) 2
                   @ [word_of_int (w sdiv 8), word_of_int (h sdiv 8)]"
  from assms obtain r1 s1 where raw: "escpos_printer_raw ?buffer 4 s = Inr (r1, s1)"
    by (auto simp: escpos_printer_upload_def Let_def split: if_splits sum.splits)
  from assms raw have r1: "r1 = 0"
    by (auto simp: escpos_printer_upload_def Let_def split: if_splits sum.splits)
  from assms raw r1 have "\<exists>s2. upload_loop pixel_bits 0 ((w * (h sdiv 8)) sdiv 4) 0 s1 = Inr (0, s2)
      \<and> wire s2 = wire s'"
    by (auto simp: escpos_printer_upload_def Let_def split: if_splits sum.splits)
  then obtain s2 where lp: "upload_loop pixel_bits 0 (w * (h div 8) div 4) 0 s1 = Inr (0, s2)"
    and w2: "wire s2 = wire s'" by (auto simp: n)
  have "0 \<le> w * (h div 8) div 4" using a by (simp add: pos_imp_zdiv_nonneg_iff)
  from upload_loop_success_length [OF lp this]
  have "int (length (wire s2)) = int (length (wire s1)) + w * h div 8" using tot by simp
  moreover from raw r1 have "int (length (wire s1)) = int (length (wire s)) + 4"
    by (auto dest: escpos_printer_raw_success_length)
  ultimately show ?thesis using w2 by simp
qed


lemma escpos_printer_raw_whole_write:
  assumes "outcomes s = Accepts k # rest" and "4 \<le> k" and "4 \<le> length message"
  shows "escpos_printer_raw message 4 s
           = Inr (0, s\<lparr>wire := wire s @ take 4 message, outcomes := rest\<rparr>)"
  using assms
  by (simp add: escpos_printer_raw_def raw_loop.simps [of message 4] send_def min_def)

lemma upload_loop_whole_writes:
  assumes "outcomes s = map Accepts ks @ rest" and "\<forall>k \<in> set ks. 4 \<le> k"
    and "int (length ks) = n - i" and "0 \<le> i" and "4 * n \<le> int (length pixel_bits)"
  shows "upload_loop pixel_bits i n 0 s
           = Inr (0, s\<lparr>wire := wire s @ take (4 * length ks) (drop (nat (i * 4)) pixel_bits),
                        outcomes := rest\<rparr>)"
  using assms
proof (induction ks arbitrary: i s)
  case Nil
  then show ?case by (simp add: upload_loop.simps)
next
  case (Cons k ks)
  let ?m = "drop (nat (i * 4)) pixel_bits"
  let ?s1 = "s\<lparr>wire := wire s @ take 4 ?m, outcomes := map Accepts ks @ rest\<rparr>"
  from Cons.prems have lt: "i < n" by simp
  from Cons.prems have len: "4 \<le> length ?m" by simp
  from Cons.prems have raw: "escpos_printer_raw ?m 4 s = Inr (0, ?s1)"
    using escpos_printer_raw_whole_write [of s k "map Accepts ks @ rest" ?m] len by simp
  have "upload_loop pixel_bits (i + 1) n 0 ?s1
          = Inr (0, ?s1\<lparr>wire := wire ?s1 @ take (4 * length ks) (drop (nat ((i + 1) * 4)) pixel_bits),
                          outcomes := rest\<rparr>)"
    by (rule Cons.IH) (use Cons.prems in auto)
  moreover have "drop (nat ((i + 1) * 4)) pixel_bits = drop 4 ?m"
    using Cons.prems(4) by (simp add: nat_add_distrib nat_mult_distrib add.commute)
  moreover have "take 4 ?m @ take (4 * length ks) (drop 4 ?m) = take (4 * length (k # ks)) ?m"
    using take_add [of 4 "4 * length ks" ?m] by (simp del: drop_drop)
  ultimately show ?case
    using lt raw by (subst upload_loop.simps) (simp del: drop_drop)
qed

lemma strncpy_two: "p0 \<noteq> 0 \<Longrightarrow> strncpy (p0 # p1 # ps) 2 = [p0, p1]"
  by (simp add: strncpy_def Let_def)

lemma escpos_printer_upload_whole_writes:
  assumes dims: "0 < w" "w \<le> ESCPOS_CHUNK_DOT_HEIGHT cfg" "0 < h" "h \<le> ESCPOS_CHUNK_DOT_HEIGHT cfg"
      "w mod 32 = 0" "h mod 32 = 0"
    and cmd: "ESCPOS_CMD_DEFINE_DL_BIT_IMAGE cfg = p0 # p1 # ps" "p0 \<noteq> 0"
    and buf: "w * h div 8 \<le> int (length pixel_bits)"
    and out: "outcomes s = Accepts k # map Accepts ks @ rest" "4 \<le> k" "\<forall>k \<in> set ks. 4 \<le> k"
      "int (length ks) = w * h div 32"
  shows "escpos_printer_upload cfg pixel_bits w h s
           = Inr (0, s\<lparr>wire := wire s @ [p0, p1, word_of_int (w div 8), word_of_int (h div 8)]
                                 @ take (nat (w * h div 8)) pixel_bits,
                        outcomes := rest\<rparr>)"
proof -
  have sm: "w smod 32 = 0" "h smod 32 = 0" using dims by (simp_all add: smod_nonneg)
  have d8: "w sdiv 8 = w div 8" "h sdiv 8 = h div 8" using dims by (simp_all add: sdiv_nonneg)
  obtain a where a: "w = 32 * a" using dims(5) by (metis mod_0_imp_dvd dvdE)
  obtain b where b: "h = 32 * b" using dims(6) by (metis mod_0_imp_dvd dvdE)
  have "w * (h div 8) = 4 * (w * h div 32)" by (simp add: a b)
  moreover have "0 \<le> w * h div 32" using dims by (simp add: pos_imp_zdiv_nonneg_iff)
  ultimately have n: "(w * (h sdiv 8)) sdiv 4 = w * h div 32" by (simp add: d8 sdiv_nonneg)
  have n4: "4 * (w * h div 32) = w * h div 8" by (simp add: a b)
  let ?hdr = "[p0, p1, word_of_int (w div 8), word_of_int (h div 8)] :: byte list"
  let ?s1 = "s\<lparr>wire := wire s @ ?hdr, outcomes := map Accepts ks @ rest\<rparr>"
  have hdr: "strncpy (ESCPOS_CMD_DEFINE_DL_BIT_IMAGE cfg) 2
               @ [word_of_int (w sdiv 8), word_of_int (h sdiv 8)] = ?hdr"
    using cmd by (simp add: strncpy_two d8)
  have raw: "escpos_printer_raw ?hdr 4 s = Inr (0, ?s1)"
    using escpos_printer_raw_whole_write [of s k "map Accepts ks @ rest" ?hdr] out by simp
  have "upload_loop pixel_bits 0 (w * h div 32) 0 ?s1
          = Inr (0, ?s1\<lparr>wire := wire ?s1 @ take (4 * length ks) (drop (nat (0 * 4)) pixel_bits),
                          outcomes := rest\<rparr>)"
    by (rule upload_loop_whole_writes) (use out buf n4 in auto)
  moreover have "4 * length ks = nat (w * h div 8)" using out(4) n4 by linarith
  ultimately have lp: "upload_loop pixel_bits 0 (w * h div 32) 0 ?s1
          = Inr (0, s\<lparr>wire := wire s @ ?hdr @ take (nat (w * h div 8)) pixel_bits,
                        outcomes := rest\<rparr>)"
    by simp
  show ?thesis
    using dims sm by (simp add: escpos_printer_upload_def hdr raw n lp del: append.simps)
qed

text \<open>
  Claim C3, as the code has it. A successful upload of a packed bitmap of \<open>w\<close> by
  \<open>h\<close> pixels makes the socket accept exactly \<open>4 + w * h / 8\<close> bytes, that is 8 times
  \<open>(w / 8) * (h / 8)\<close> bytes of data after the header. When the socket takes every
  write whole, the upload succeeds with one write for the 4-byte header (the two bytes
  of the command, then \<open>w / 8\<close>, then \<open>h / 8\<close>) and one write for each 4-byte group
  of the first \<open>w * h / 8\<close> bytes of the buffer, in order.
\<close>

theorem escpos_printer_upload_transmits:
  "(\<forall>s'. escpos_printer_upload cfg pixel_bits w h s = Inr (0, s') \<longrightarrow>
        int (length (wire s')) = int (length (wire s)) + 4 + w * h div 8)
 \<and> (0 < w \<and> w \<le> ESCPOS_CHUNK_DOT_HEIGHT cfg \<and> 0 < h \<and> h \<le> ESCPOS_CHUNK_DOT_HEIGHT cfg
      \<and> w mod 32 = 0 \<and> h mod 32 = 0
      \<and> ESCPOS_CMD_DEFINE_DL_BIT_IMAGE cfg = p0 # p1 # ps \<and> p0 \<noteq> 0
      \<and> w * h div 8 \<le> int (length pixel_bits)
      \<and> outcomes s = Accepts k # map Accepts ks @ rest \<and> 4 \<le> k \<and> (\<forall>k \<in> set ks. 4 \<le> k)
      \<and> int (length ks) = w * h div 32
    \<longrightarrow> escpos_printer_upload cfg pixel_bits w h s
          = Inr (0, s\<lparr>wire := wire s @ [p0, p1, word_of_int (w div 8), word_of_int (h div 8)]
                                @ take (nat (w * h div 8)) pixel_bits,
                       outcomes := rest\<rparr>))"
  by (intro conjI allI impI escpos_printer_upload_success_length
        escpos_printer_upload_whole_writes) auto

theorem escpos_printer_upload_transmits_witness:
  "escpos_printer_upload demo_config (replicate 128 7) 32 32
     \<lparr>wire = [], outcomes = Accepts 4 # map Accepts (replicate 32 4), last_error = ESCPOS_ERROR_SOCK\<rparr>
   = Inr (0, \<lparr>wire = [0x1d, 0x2a, 4, 4] @ replicate 128 7, outcomes = [],
              last_error = ESCPOS_ERROR_SOCK\<rparr>)"
  using escpos_printer_upload_transmits [of demo_config "replicate 128 7" 32 32
      "\<lparr>wire = [], outcomes = Accepts 4 # map Accepts (replicate 32 4), last_error = ESCPOS_ERROR_SOCK\<rparr>"
      "0x1d" "0x2a" "[0]" 4 "replicate 32 4" "[]"]
  by (simp add: demo_config_def)

text \<open>
  The claim as stated counts \<open>(w / 8) * (h / 8)\<close> data bytes: 16 for a bitmap of 32 by
  32 pixels, where the upload sends 128.
\<close>

theorem escpos_printer_upload_sends_more_than_W8_H8:
  "escpos_printer_upload demo_config (replicate 128 9) 32 32
     \<lparr>wire = [], outcomes = Accepts 4 # map Accepts (replicate 32 4), last_error = ESCPOS_ERROR_SOCK\<rparr>
   = Inr (0, \<lparr>wire = [0x1d, 0x2a, 4, 4] @ replicate 128 9, outcomes = [],
              last_error = ESCPOS_ERROR_SOCK\<rparr>)
   \<and> length (replicate 128 (9::byte)) \<noteq> (32 div 8) * (32 div 8)"
  using escpos_printer_upload_whole_writes [of 32 demo_config 32 "0x1d" "0x2a" "[0]" "replicate 128 9"
      "\<lparr>wire = [], outcomes = Accepts 4 # map Accepts (replicate 32 4), last_error = ESCPOS_ERROR_SOCK\<rparr>"
      4 "replicate 32 4" "[]"]
  by (simp add: demo_config_def)

subsection \<open>Chunk height\<close>

text \<open>
  With no overlap the height handed to the packer is the one the specification gives,
  and it is positive. With any overlap between 0 and the chunk capacity the two differ
  already for an image one row taller than a chunk.
\<close>

lemma chunk_height_without_overlap:
  assumes "ESCPOS_CHUNK_OVERLAP cfg = 0" and "y * ESCPOS_CHUNK_DOT_HEIGHT cfg < height"
  shows "chunk_height cfg height y
           = min (ESCPOS_CHUNK_DOT_HEIGHT cfg)
                 (height - y * (ESCPOS_CHUNK_DOT_HEIGHT cfg - ESCPOS_CHUNK_OVERLAP cfg))"
    and "0 < ESCPOS_CHUNK_DOT_HEIGHT cfg \<Longrightarrow> 0 < chunk_height cfg height y"
  using assms by (auto simp: chunk_height_def min_def algebra_simps)

lemma chunk_height_with_overlap:
  assumes "0 < ESCPOS_CHUNK_OVERLAP cfg" and "ESCPOS_CHUNK_OVERLAP cfg < ESCPOS_CHUNK_DOT_HEIGHT cfg"
    and "2 \<le> ESCPOS_CHUNK_DOT_HEIGHT cfg" and "height = ESCPOS_CHUNK_DOT_HEIGHT cfg + 1"
  shows "1 * (ESCPOS_CHUNK_DOT_HEIGHT cfg - ESCPOS_CHUNK_OVERLAP cfg) < height"
    and "chunk_height cfg height 1 = 1"
    and "min (ESCPOS_CHUNK_DOT_HEIGHT cfg)
             (height - 1 * (ESCPOS_CHUNK_DOT_HEIGHT cfg - ESCPOS_CHUNK_OVERLAP cfg))
           = 1 + ESCPOS_CHUNK_OVERLAP cfg"
  using assms by (auto simp: chunk_height_def min_def)

text \<open>
  Claim C1 at an image of height 500, with chunks of 256 rows and an overlap of 8.
  At cursor 1 the loop runs and hands 244 rows to the packer, where
  \<open>min chunkCapacity (H - y * printHeight)\<close> is 252. At cursor 2 the loop still runs
  and the height is -12, where the claim gives 4.
\<close>

theorem chunk_height_ignores_overlap:
  "1 * (ESCPOS_CHUNK_DOT_HEIGHT demo_config - ESCPOS_CHUNK_OVERLAP demo_config) < 500
 \<and> chunk_height demo_config 500 1 = 244
 \<and> min (ESCPOS_CHUNK_DOT_HEIGHT demo_config)
        (500 - 1 * (ESCPOS_CHUNK_DOT_HEIGHT demo_config - ESCPOS_CHUNK_OVERLAP demo_config)) = 252
 \<and> 2 * (ESCPOS_CHUNK_DOT_HEIGHT demo_config - ESCPOS_CHUNK_OVERLAP demo_config) < 500
 \<and> chunk_height demo_config 500 2 = - 12
 \<and> min (ESCPOS_CHUNK_DOT_HEIGHT demo_config)
        (500 - 2 * (ESCPOS_CHUNK_DOT_HEIGHT demo_config - ESCPOS_CHUNK_OVERLAP demo_config)) = 4"
  by (simp add: chunk_height_def demo_config_def)


subsection \<open>Bitmap packer\<close>

lemma for_loop_invariant:
  assumes "I i s" and "i \<le> n"
    and "\<And>j t. i \<le> j \<Longrightarrow> j < n \<Longrightarrow> I j t \<Longrightarrow> \<exists>t'. body j t = Inr t' \<and> I (j + 1) t'"
  shows "\<exists>t. for_loop i n body s = Inr t \<and> I n t"
  using assms
proof (induction i n body s rule: for_loop.induct)
  case (1 i n body s)
  show ?case
  proof (cases "i < n")
    case False
    with "1.prems" show ?thesis by (simp add: for_loop.simps)
  next
    case True
    from "1.prems"(3) [OF order_refl True "1.prems"(1)]
    obtain s' where b: "body i s = Inr s'" and I': "I (i + 1) s'" by blast
    have "\<exists>t. for_loop (i + 1) n body s' = Inr t \<and> I n t"
    proof (rule "1.IH" [OF True b I'])
      show "i + 1 \<le> n" using True by simp
      show "\<exists>t'. body j t = Inr t' \<and> I (j + 1) t'" if "i + 1 \<le> j" "j < n" "I j t" for j t
        using "1.prems"(3) [of j t] that by simp
    qed
    with True b show ?thesis by (subst for_loop.simps) simp
  qed
qed

lemma bit_set_one: "i < 8 \<Longrightarrow> bit ((b::byte) OR 2 ^ i) m = (bit b m \<or> m = i)"
  by (auto simp: bit_simps)

lemma bit_clear_one: "i < 8 \<Longrightarrow> bit ((b::byte) AND NOT (2 ^ i)) m = (bit b m \<and> m \<noteq> i)"
  by (auto simp: bit_simps dest: bit_imp_le_length)

lemma put_bit_ok:
  assumes "0 \<le> k" and "k < 8 * int (length bits)"
  shows "\<exists>bits'. put_bit bits k v = Inr bits' \<and> length bits' = length bits
           \<and> (\<forall>pi. 0 \<le> pi \<longrightarrow> get_bit bits' pi = (if pi = k then 0 < v else get_bit bits pi))"
proof -
  let ?j = "nat (k div 8)" and ?i = "nat (7 - k mod 8)"
  let ?b = "bits ! ?j"
  let ?b' = "if 0 < v then ?b OR push_bit ?i 1 else ?b AND NOT (push_bit ?i 1)"
  have sd: "k sdiv 8 = k div 8" "k smod 8 = k mod 8" using assms(1)
    by (simp_all add: sdiv_nonneg smod_nonneg)
  have j: "0 \<le> k div 8" "k div 8 < int (length bits)" using assms by simp_all
  have i: "0 \<le> 7 - k mod 8" "7 - k mod 8 < 8" "?i < 8" by simp_all
  have pb: "put_bit bits k v = Inr (bits[?j := ?b'])"
    using j i by (simp add: put_bit_def Let_def sd set_bit_c_def)
  have "get_bit (bits[?j := ?b']) pi = (if pi = k then 0 < v else get_bit bits pi)"
    if "0 \<le> pi" for pi
  proof (cases "pi div 8 = k div 8")
    case True
    have jl: "?j < length bits" using j by simp
    have eq: "(nat (7 - pi mod 8) = ?i) = (pi = k)"
    proof -
      have "(nat (7 - pi mod 8) = ?i) = (pi mod 8 = k mod 8)" by auto
      also have "\<dots> = (pi = k)" using True by (metis div_mult_mod_eq)
      finally show ?thesis .
    qed
    show ?thesis
      using jl i(3) eq by (simp add: get_bit_def True bit_set_one bit_clear_one)
  next
    case False
    then have "nat (pi div 8) \<noteq> ?j" using that assms(1) by (simp add: nat_eq_iff pos_imp_zdiv_nonneg_iff)
    moreover from False have "pi \<noteq> k" by auto
    ultimately show ?thesis by (simp add: get_bit_def)
  qed
  with pb show ?thesis by simp
qed

lemma packed_upto_step:
  assumes "packed_upto ex ok bits0 k (bits, reads)" and "0 \<le> k" and "k < 8 * int (length bits0)"
    and "(0 < v) = ex k" and "\<forall>off \<in> set rs. ok off"
  shows "\<exists>bits'. put_bit bits k v = Inr bits' \<and> packed_upto ex ok bits0 (k + 1) (bits', reads @ rs)"
proof -
  from assms(1) have len: "length bits = length bits0" by (simp add: packed_upto_def)
  from put_bit_ok [of k bits v] assms(2,3) len obtain bits' where
    pb: "put_bit bits k v = Inr bits'" and l': "length bits' = length bits"
    and g: "\<And>pi. 0 \<le> pi \<Longrightarrow> get_bit bits' pi = (if pi = k then 0 < v else get_bit bits pi)"
    by auto
  have "packed_upto ex ok bits0 (k + 1) (bits', reads @ rs)"
    unfolding packed_upto_def
  proof (intro conjI allI impI ballI)
    show "length (fst (bits', reads @ rs)) = length bits0" using l' len by simp
  next
    fix pi assume "0 \<le> pi \<and> pi < k + 1"
    then show "get_bit (fst (bits', reads @ rs)) pi = ex pi"
      using g [of pi] assms(1,4) by (cases "pi = k") (auto simp: packed_upto_def)
  next
    fix pi assume "k + 1 \<le> pi"
    then show "get_bit (fst (bits', reads @ rs)) pi = get_bit bits0 pi"
      using g [of pi] assms(1,2) by (auto simp: packed_upto_def)
  next
    fix off assume "off \<in> set (snd (bits', reads @ rs))"
    then show "ok off" using assms(1,5) by (auto simp: packed_upto_def)
  qed
  with pb show ?thesis by blast
qed

lemma column_loop:
  assumes inv: "packed_upto ex ok bits0 (c * Hp) st" and c: "0 \<le> c" and Hp: "0 \<le> Hp"
    and room: "(c + 1) * Hp \<le> 8 * int (length bits0)"
    and cell: "\<And>y bits reads. 0 \<le> y \<Longrightarrow> y < Hp \<Longrightarrow>
        \<exists>v rs. cell y (bits, reads)
                 = (case put_bit bits (c * Hp + y) v of Inl e \<Rightarrow> Inl e
                    | Inr bits' \<Rightarrow> Inr (bits', reads @ rs))
               \<and> (0 < v) = ex (c * Hp + y) \<and> (\<forall>off \<in> set rs. ok off)"
  shows "\<exists>st'. for_loop 0 Hp cell st = Inr st' \<and> packed_upto ex ok bits0 ((c + 1) * Hp) st'"
proof -
  have "\<exists>t. for_loop 0 Hp cell st = Inr t \<and> packed_upto ex ok bits0 (c * Hp + Hp) t"
  proof (rule for_loop_invariant [where I = "\<lambda>y. packed_upto ex ok bits0 (c * Hp + y)"])
    show "packed_upto ex ok bits0 (c * Hp + 0) st" using inv by simp
    show "0 \<le> Hp" by fact
  next
    fix y t assume y: "0 \<le> y" "y < Hp" and I: "packed_upto ex ok bits0 (c * Hp + y) t"
    obtain bits reads where t: "t = (bits, reads)" by (cases t)
    from cell [OF y, of bits reads] obtain v rs where
      ce: "cell y (bits, reads)
             = (case put_bit bits (c * Hp + y) v of Inl e \<Rightarrow> Inl e
                | Inr bits' \<Rightarrow> Inr (bits', reads @ rs))"
      and v: "(0 < v) = ex (c * Hp + y)" and rs: "\<forall>off \<in> set rs. ok off" by blast
    have "0 \<le> c * Hp" using c Hp by simp
    then have k0: "0 \<le> c * Hp + y" using y by simp
    have "c * Hp + y < (c + 1) * Hp" using y by (simp add: algebra_simps)
    with room have k1: "c * Hp + y < 8 * int (length bits0)" by simp
    from packed_upto_step [OF I [unfolded t] k0 k1 v rs] obtain bits' where
      "put_bit bits (c * Hp + y) v = Inr bits'"
      "packed_upto ex ok bits0 (c * Hp + y + 1) (bits', reads @ rs)" by blast
    then show "\<exists>t'. cell y t = Inr t' \<and> packed_upto ex ok bits0 (c * Hp + (y + 1)) t'"
      by (simp add: t ce add.assoc)
  qed
  then show ?thesis by (simp add: algebra_simps)
qed

lemma region_loop:
  assumes inv: "packed_upto ex ok bits0 (base * Hp) st"
    and nonneg: "0 \<le> base" "0 \<le> n" "0 \<le> Hp"
    and room: "(base + n) * Hp \<le> 8 * int (length bits0)"
    and cell: "\<And>x y bits reads. 0 \<le> x \<Longrightarrow> x < n \<Longrightarrow> 0 \<le> y \<Longrightarrow> y < Hp \<Longrightarrow>
        \<exists>v rs. cell x y (bits, reads)
                 = (case put_bit bits ((base + x) * Hp + y) v of Inl e \<Rightarrow> Inl e
                    | Inr bits' \<Rightarrow> Inr (bits', reads @ rs))
               \<and> (0 < v) = ex ((base + x) * Hp + y) \<and> (\<forall>off \<in> set rs. ok off)"
  shows "\<exists>st'. for_loop 0 n (\<lambda>x. for_loop 0 Hp (cell x)) st = Inr st'
               \<and> packed_upto ex ok bits0 ((base + n) * Hp) st'"
proof (rule for_loop_invariant [where I = "\<lambda>x. packed_upto ex ok bits0 ((base + x) * Hp)"])
  show "packed_upto ex ok bits0 ((base + 0) * Hp) st" using inv by simp
  show "0 \<le> n" by fact
next
  fix x t assume x: "0 \<le> x" "x < n" and I: "packed_upto ex ok bits0 ((base + x) * Hp) t"
  have "(base + x + 1) * Hp \<le> (base + n) * Hp"
    using x nonneg by (intro mult_right_mono) simp_all
  with room have r: "(base + x + 1) * Hp \<le> 8 * int (length bits0)" by simp
  have "\<exists>st'. for_loop 0 Hp (cell x) t = Inr st'
            \<and> packed_upto ex ok bits0 ((base + x + 1) * Hp) st'"
    by (rule column_loop [OF I _ nonneg(3) r]) (use x nonneg cell in auto)
  then show "\<exists>t'. for_loop 0 Hp (cell x) t = Inr t'
            \<and> packed_upto ex ok bits0 ((base + (x + 1)) * Hp) t'"
    by (simp add: add.assoc)
qed

lemma convert_to_bit_ok:
  assumes "ncomp = 1 \<or> ncomp = 2 \<or> ncomp = 3 \<or> ncomp = 4" and "0 \<le> p"
    and "p + ncomp \<le> int (length mem)"
  shows "\<exists>b rs. convert_to_bit mem p ncomp = Inr (b, rs)
           \<and> (\<forall>off \<in> set rs. p \<le> off \<and> off < p + ncomp)"
proof -
  have gray: ?thesis if "ncomp = 1 \<or> ncomp = 2"
    using that assms(2,3)
    by (auto simp: convert_to_bit_def ESCPOS_COMP_G_def ESCPOS_COMP_GA_def rd_in_range)
  have colour: ?thesis if c: "ncomp = 3 \<or> ncomp = 4"
  proof -
    from c assms(3) have "p + 2 < int (length mem)" by auto
    with assms(2) have "rd mem p = Inr (mem ! nat p)" "rd mem (p + 1) = Inr (mem ! nat (p + 1))"
      "rd mem (p + 2) = Inr (mem ! nat (p + 2))"
      by (simp_all add: rd_in_range)
    with c show ?thesis
      by (auto simp: convert_to_bit_def ESCPOS_COMP_G_def ESCPOS_COMP_GA_def
                     ESCPOS_COMP_RGB_def ESCPOS_COMP_RGBA_def)
  qed
  from assms(1) gray colour show ?thesis by blast
qed

lemma pixel_offset_bounds:
  fixes w h x y ncomp :: int
  assumes "0 \<le> x" "x < w" "0 \<le> y" "y < h" "0 < ncomp"
  shows "0 \<le> (y * w * ncomp) + (x * ncomp)"
    and "(y * w * ncomp) + (x * ncomp) + ncomp \<le> w * h * ncomp"
proof -
  show "0 \<le> (y * w * ncomp) + (x * ncomp)" using assms by simp
  have "y * w + x + 1 \<le> y * w + w" using assms by simp
  also have "\<dots> = (y + 1) * w" by (simp add: algebra_simps)
  also have "\<dots> \<le> h * w" using assms by (intro mult_right_mono) simp_all
  finally have "(y * w + x + 1) * ncomp \<le> h * w * ncomp"
    using assms(5) by (intro mult_right_mono) simp_all
  then show "(y * w * ncomp) + (x * ncomp) + ncomp \<le> w * h * ncomp"
    by (simp add: algebra_simps)
qed

lemma calculate_padding_facts:
  assumes "1 \<le> size_v" and "calculate_padding size_v = (l, r)"
  shows "0 \<le> l" and "0 \<le> r" and "32 dvd (size_v + l + r)"
proof -
  have sm: "size_v smod 32 = size_v mod 32" using assms(1) by (simp add: smod_nonneg)
  define p where "p = 32 - size_v mod 32"
  have prange: "1 \<le> p" "p \<le> 32" unfolding p_def by presburger+
  have ps: "p sdiv 2 = p div 2" "p smod 2 = p mod 2"
    using prange by (simp_all add: smod_nonneg sdiv_nonneg)
  have lr: "(l = 0 \<and> r = 0 \<and> size_v mod 32 = 0)
          \<or> (l = p div 2 \<and> r = p div 2 + (if p mod 2 = 0 then 0 else 1))"
    using assms(2) by (cases "size_v mod 32 = 0")
      (auto simp add: calculate_padding_def sm Let_def ps p_def [symmetric])
  from lr prange show "0 \<le> l" by auto
  from lr prange show "0 \<le> r" by auto
  from lr show "32 dvd (size_v + l + r)"
  proof
    assume "l = 0 \<and> r = 0 \<and> size_v mod 32 = 0"
    then show ?thesis by auto
  next
    assume a: "l = p div 2 \<and> r = p div 2 + (if p mod 2 = 0 then 0 else 1)"
    then have "l + r = p" by presburger
    moreover have "32 dvd (size_v + p)" unfolding p_def by presburger
    ultimately show ?thesis by (simp add: add.assoc)
  qed
qed

lemma cell_div_mod:
  fixes c y Hp :: int
  assumes "0 \<le> y" and "y < Hp"
  shows "(c * Hp + y) div Hp = c" and "(c * Hp + y) mod Hp = y"
  using assms by (simp_all add: div_pos_pos_trivial)

lemma pack_correct:
  assumes w: "1 \<le> w" and h: "1 \<le> h"
    and nc: "ncomp = 1 \<or> ncomp = 2 \<or> ncomp = 3 \<or> ncomp = 4"
    and base: "0 \<le> image_data" and mem: "image_data + w * h * ncomp \<le> int (length mem)"
    and pw: "calculate_padding w = (pl, pr)" and ph: "calculate_padding h = (pt, pb)"
    and room: "(w + pl + pr) * (h + (pb + pt)) \<le> 8 * int (length pixel_bits)"
  shows "\<exists>bits' reads.
           convert_image_to_bits pixel_bits mem image_data w h ncomp
             = Inr (bits', reads, w + pl + pr, h + (pb + pt))
         \<and> packed_upto
             (\<lambda>pi. padded_pixel mem image_data w h ncomp pl
                     (pi div (h + (pb + pt))) (pi mod (h + (pb + pt))))
             (\<lambda>off. image_data \<le> off \<and> off < image_data + w * h * ncomp)
             pixel_bits ((w + pl + pr) * (h + (pb + pt))) (bits', reads)"
proof -
  define Hp where "Hp = h + (pb + pt)"
  define ex where "ex = (\<lambda>pi. padded_pixel mem image_data w h ncomp pl (pi div Hp) (pi mod Hp))"
  define ok where "ok = (\<lambda>off. image_data \<le> off \<and> off < image_data + w * h * ncomp)"
  note pwf = calculate_padding_facts [OF w pw]
  note phf = calculate_padding_facts [OF h ph]
  have Hp: "0 \<le> Hp" "h \<le> Hp" using phf h by (simp_all add: Hp_def)
  have ncpos: "0 < ncomp" using nc by auto
  have room': "(pl + w + pr) * Hp \<le> 8 * int (length pixel_bits)"
    using room by (simp add: Hp_def add.commute add.left_commute)
  have r1: "(0 + pl) * Hp \<le> 8 * int (length pixel_bits)"
  proof -
    have "(0 + pl) * Hp \<le> (pl + w + pr) * Hp" using pwf w Hp by (intro mult_right_mono) simp_all
    with room' show ?thesis by simp
  qed
  have r2: "(pl + w) * Hp \<le> 8 * int (length pixel_bits)"
  proof -
    have "(pl + w) * Hp \<le> (pl + w + pr) * Hp" using pwf w Hp by (intro mult_right_mono) simp_all
    with room' show ?thesis by simp
  qed
  have P0: "packed_upto ex ok pixel_bits (0 * Hp) (pixel_bits, [])"
    by (auto simp: packed_upto_def)
  \<comment> \<open>left padding\<close>
  have "\<exists>st'. for_loop 0 pl (\<lambda>x. for_loop 0 Hp (left_cell Hp x)) (pixel_bits, []) = Inr st'
          \<and> packed_upto ex ok pixel_bits ((0 + pl) * Hp) st'"
  proof (rule region_loop [OF P0 _ pwf(1) Hp(1) r1])
    fix x y :: int and bits reads
    assume xy: "0 \<le> x" "x < pl" "0 \<le> y" "y < Hp"
    have "left_cell Hp x y (bits, reads)
            = (case put_bit bits ((0 + x) * Hp + y) 0 of Inl e \<Rightarrow> Inl e
               | Inr bits' \<Rightarrow> Inr (bits', reads @ []))"
      by (simp add: left_cell_def cong: sum.case_cong)
    moreover have "(0 < (0::int)) = ex ((0 + x) * Hp + y)"
      using xy by (simp add: ex_def padded_pixel_def cell_div_mod)
    ultimately show "\<exists>v rs. left_cell Hp x y (bits, reads)
            = (case put_bit bits ((0 + x) * Hp + y) v of Inl e \<Rightarrow> Inl e
               | Inr bits' \<Rightarrow> Inr (bits', reads @ rs))
          \<and> (0 < v) = ex ((0 + x) * Hp + y) \<and> (\<forall>off \<in> set rs. ok off)"
      by (intro exI [of _ 0] exI [of _ "[]"]) simp
  qed simp
  then obtain s1 where
    l1: "for_loop 0 pl (\<lambda>x. for_loop 0 Hp (left_cell Hp x)) (pixel_bits, []) = Inr s1"
    and P1: "packed_upto ex ok pixel_bits (pl * Hp) s1" by auto
  \<comment> \<open>image columns\<close>
  have "\<exists>st'. for_loop 0 w (\<lambda>x. for_loop 0 Hp (image_cell mem image_data w h ncomp pl Hp x)) s1
              = Inr st'
          \<and> packed_upto ex ok pixel_bits ((pl + w) * Hp) st'"
  proof (rule region_loop [OF P1 pwf(1) _ Hp(1) r2])
    show "0 \<le> w" using w by simp
  next
    fix x y :: int and bits reads
    assume xy: "0 \<le> x" "x < w" "0 \<le> y" "y < Hp"
    let ?p = "image_data + (y * w * ncomp) + (x * ncomp)"
    have pi: "(pl * Hp) + (x * Hp) + y = (pl + x) * Hp + y" by (simp add: algebra_simps)
    show "\<exists>v rs. image_cell mem image_data w h ncomp pl Hp x y (bits, reads)
            = (case put_bit bits ((pl + x) * Hp + y) v of Inl e \<Rightarrow> Inl e
               | Inr bits' \<Rightarrow> Inr (bits', reads @ rs))
          \<and> (0 < v) = ex ((pl + x) * Hp + y) \<and> (\<forall>off \<in> set rs. ok off)"
    proof (cases "y < h")
      case True
      from pixel_offset_bounds [OF xy(1,2,3) True ncpos]
      have b: "0 \<le> ?p" "?p + ncomp \<le> image_data + w * h * ncomp" using base by simp_all
      with mem have "?p + ncomp \<le> int (length mem)" by simp
      from convert_to_bit_ok [OF nc b(1) this] obtain v rs where
        cv: "convert_to_bit mem ?p ncomp = Inr (v, rs)"
        and rs: "\<forall>off \<in> set rs. ?p \<le> off \<and> off < ?p + ncomp" by blast
      have "image_cell mem image_data w h ncomp pl Hp x y (bits, reads)
              = (case put_bit bits ((pl + x) * Hp + y) v of Inl e \<Rightarrow> Inl e
                 | Inr bits' \<Rightarrow> Inr (bits', reads @ rs))"
        using True by (simp add: image_cell_def Let_def cv pi)
      moreover have "(0 < v) = ex ((pl + x) * Hp + y)"
        using xy True by (simp add: ex_def padded_pixel_def cell_div_mod dark_def cv)
      moreover have "\<forall>off \<in> set rs. ok off"
        using rs b pixel_offset_bounds(1) [OF xy(1,2,3) True ncpos] by (auto simp: ok_def)
      ultimately show ?thesis by blast
    next
      case False
      have "image_cell mem image_data w h ncomp pl Hp x y (bits, reads)
              = (case put_bit bits ((pl + x) * Hp + y) 0 of Inl e \<Rightarrow> Inl e
                 | Inr bits' \<Rightarrow> Inr (bits', reads @ []))"
        using False by (simp add: image_cell_def Let_def pi cong: sum.case_cong)
      moreover have "(0 < (0::int)) = ex ((pl + x) * Hp + y)"
        using xy False by (simp add: ex_def padded_pixel_def cell_div_mod)
      ultimately show ?thesis by (intro exI [of _ 0] exI [of _ "[]"]) simp
    qed
  qed
  then obtain s2 where
    l2: "for_loop 0 w (\<lambda>x. for_loop 0 Hp (image_cell mem image_data w h ncomp pl Hp x)) s1 = Inr s2"
    and P2: "packed_upto ex ok pixel_bits ((pl + w) * Hp) s2" by auto
  \<comment> \<open>right padding\<close>
  have "\<exists>st'. for_loop 0 pr (\<lambda>x. for_loop 0 Hp (right_cell w pl Hp x)) s2 = Inr st'
          \<and> packed_upto ex ok pixel_bits ((pl + w + pr) * Hp) st'"
  proof (rule region_loop [OF P2 _ pwf(2) Hp(1) room'])
    show "0 \<le> pl + w" using pwf w by simp
  next
    fix x y :: int and bits reads
    assume xy: "0 \<le> x" "x < pr" "0 \<le> y" "y < Hp"
    have pi: "(pl * Hp) + (w * Hp) + (x * Hp) + y = (pl + w + x) * Hp + y"
      by (simp add: algebra_simps)
    have "right_cell w pl Hp x y (bits, reads)
            = (case put_bit bits ((pl + w + x) * Hp + y) 0 of Inl e \<Rightarrow> Inl e
               | Inr bits' \<Rightarrow> Inr (bits', reads @ []))"
      by (simp add: right_cell_def Let_def pi cong: sum.case_cong)
    moreover have "(0 < (0::int)) = ex ((pl + w + x) * Hp + y)"
      using xy by (simp add: ex_def padded_pixel_def cell_div_mod)
    ultimately show "\<exists>v rs. right_cell w pl Hp x y (bits, reads)
            = (case put_bit bits ((pl + w + x) * Hp + y) v of Inl e \<Rightarrow> Inl e
               | Inr bits' \<Rightarrow> Inr (bits', reads @ rs))
          \<and> (0 < v) = ex ((pl + w + x) * Hp + y) \<and> (\<forall>off \<in> set rs. ok off)"
      by (intro exI [of _ 0] exI [of _ "[]"]) simp
  qed
  then obtain bits' reads where
    l3: "for_loop 0 pr (\<lambda>x. for_loop 0 Hp (right_cell w pl Hp x)) s2 = Inr (bits', reads)"
    and P3: "packed_upto ex ok pixel_bits ((pl + w + pr) * Hp) (bits', reads)" by auto
  have "convert_image_to_bits pixel_bits mem image_data w h ncomp
          = Inr (bits', reads, w + pl + pr, h + (pb + pt))"
    by (simp add: convert_image_to_bits_def pw ph Let_def Hp_def [symmetric] l1 l2 l3)
  moreover have "(pl + w + pr) = (w + pl + pr)" by simp
  ultimately show ?thesis
    using P3 unfolding ex_def ok_def Hp_def by (auto simp: add.commute add.left_commute)
qed


















subsection \<open>Chunking orchestrator\<close>

lemma image_loop_rounds:
  assumes "image_loop cfg im pixel_bits y 0 s = Inr (r, k, s')"
  shows "y \<le> k
       \<and> (y < k \<longrightarrow> (k - 1) * (ESCPOS_CHUNK_DOT_HEIGHT cfg - ESCPOS_CHUNK_OVERLAP cfg) < img_height im)
       \<and> (\<exists>pb1 s1. run_rounds cfg im y (nat (k - y)) pixel_bits s = Some (pb1, s1)
            \<and> (if r = 0
                then s' = s1
                   \<and> \<not> k * (ESCPOS_CHUNK_DOT_HEIGHT cfg - ESCPOS_CHUNK_OVERLAP cfg) < img_height im
                else k * (ESCPOS_CHUNK_DOT_HEIGHT cfg - ESCPOS_CHUNK_OVERLAP cfg) < img_height im
                   \<and> (\<exists>pb2. image_round cfg im pb1 k s1 = Inr (r, pb2, s'))))"
  using assms
proof (induction cfg im pixel_bits y "0::int" s rule: image_loop.induct)
  case (1 cfg im pixel_bits y s)
  let ?ph = "ESCPOS_CHUNK_DOT_HEIGHT cfg - ESCPOS_CHUNK_OVERLAP cfg"
  show ?case
  proof (cases "y * ?ph < img_height im")
    case False
    with "1.prems" have "r = 0" "k = y" "s' = s" by (simp_all add: image_loop.simps)
    with False show ?thesis by simp
  next
    case guard: True
    with "1.prems" obtain r1 pb' s1 where
      rnd: "image_round cfg im pixel_bits y s = Inr (r1, pb', s1)"
      by (subst (asm) image_loop.simps) (auto split: sum.splits)
    show ?thesis
    proof (cases "r1 = 0")
      case False
      with guard rnd "1.prems" have "r = r1" "k = y" "s' = s1"
        by (subst (asm) image_loop.simps, simp)+
      with False guard rnd show ?thesis by simp
    next
      case True
      with guard rnd "1.prems" have rec: "image_loop cfg im pb' (y + 1) 0 s1 = Inr (r, k, s')"
        by (subst (asm) image_loop.simps) simp
      from rnd True have rnd0: "image_round cfg im pixel_bits y s = Inr (0, pb', s1)" by simp
      have IH: "y + 1 \<le> k
         \<and> (y + 1 < k \<longrightarrow> (k - 1) * ?ph < img_height im)
         \<and> (\<exists>pb1 s1'. run_rounds cfg im (y + 1) (nat (k - (y + 1))) pb' s1 = Some (pb1, s1')
            \<and> (if r = 0 then s' = s1' \<and> \<not> k * ?ph < img_height im
                else k * ?ph < img_height im
                   \<and> (\<exists>pb2. image_round cfg im pb1 k s1' = Inr (r, pb2, s'))))"
        by (rule "1.hyps" [OF guard rnd0 refl refl _ rec]) simp
      then have yk: "y + 1 \<le> k" by simp
      then have n: "nat (k - y) = Suc (nat (k - (y + 1)))" by simp
      have last: "(k - 1) * ?ph < img_height im"
      proof (cases "y + 1 < k")
        case True with IH show ?thesis by simp
      next
        case False with yk have "k - 1 = y" by simp
        with guard show ?thesis by simp
      qed
      from IH yk last show ?thesis
        by (simp add: n rnd True)
    qed
  qed
qed

lemma rounds_is_ceiling:
  fixes k ph H :: int
  assumes "0 < ph" and "0 \<le> H" and "0 \<le> k" and "0 < k \<longrightarrow> (k - 1) * ph < H" and "\<not> k * ph < H"
  shows "k = (H + ph - 1) div ph"
proof (cases "k = 0")
  case True
  with assms have "H = 0" by simp
  with True assms(1) show ?thesis by (simp add: div_pos_pos_trivial)
next
  case False
  with assms have lo: "(k - 1) * ph < H" by simp
  define m where "m = H - (k - 1) * ph - 1"
  have "H + ph - 1 = ph * k + m" by (simp add: m_def algebra_simps)
  moreover have "0 \<le> m" using lo by (simp add: m_def)
  moreover have "m < ph" using assms(5) by (simp add: m_def algebra_simps)
  ultimately show ?thesis by (simp add: int_div_pos_eq)
qed

lemma below_ceiling:
  fixes k ph H :: int
  assumes "0 < ph" and "k * ph < H"
  shows "k < (H + ph - 1) div ph"
proof -
  have "(k + 1) * ph \<le> H + ph - 1" using assms(2) by (simp add: algebra_simps)
  then have "(k + 1) * ph div ph \<le> (H + ph - 1) div ph" using assms(1) by (intro zdiv_mono1) simp_all
  then show ?thesis using assms(1) by simp
qed

lemma image_round_parts:
  assumes "image_round cfg im pixel_bits y s = Inr (r, pb2, s')"
  shows "\<exists>reads w h r1 s2.
           convert_image_to_bits pixel_bits (img_data im)
             (y * (ESCPOS_CHUNK_DOT_HEIGHT cfg - ESCPOS_CHUNK_OVERLAP cfg) * img_width im * img_comp im)
             (img_width im) (chunk_height cfg (img_height im) y) (img_comp im)
             = Inr (pb2, reads, w, h)
         \<and> escpos_printer_upload cfg pb2 w h s = Inr (r1, s2)
         \<and> (if r1 \<noteq> 0 then r = r1 \<and> s' = s2
             else escpos_printer_print cfg s2 = Inr (r, s'))"
proof -
  from assms obtain reads w h r1 s2 where
    pk: "convert_image_to_bits pixel_bits (img_data im)
           (y * (ESCPOS_CHUNK_DOT_HEIGHT cfg - ESCPOS_CHUNK_OVERLAP cfg) * img_width im * img_comp im)
           (img_width im) (chunk_height cfg (img_height im) y) (img_comp im)
           = Inr (pb2, reads, w, h)"
    and up: "escpos_printer_upload cfg pb2 w h s = Inr (r1, s2)"
    and pr: "(if r1 = 0 then escpos_printer_print cfg s2 else Inr (r1, s2)) = Inr (r, s')"
    by (auto simp: image_round_def Let_def split: sum.splits)
  from pr have "if r1 \<noteq> 0 then r = r1 \<and> s' = s2 else escpos_printer_print cfg s2 = Inr (r, s')"
    by (auto split: if_splits)
  with pk up show ?thesis by blast
qed

lemma escpos_printer_upload_failure:
  "escpos_printer_upload cfg pixel_bits w h s = Inr (r, s') \<Longrightarrow> r \<noteq> 0 \<Longrightarrow>
     last_error s' = ESCPOS_ERROR_IMAGE_UPLOAD_FAILED"
  by (auto simp: escpos_printer_upload_def Let_def split: sum.splits if_splits)

lemma escpos_printer_print_failure:
  "escpos_printer_print cfg s = Inr (r, s') \<Longrightarrow> r \<noteq> 0 \<Longrightarrow>
     last_error s' = ESCPOS_ERROR_IMAGE_PRINT_FAILED"
  by (auto simp: escpos_printer_print_def split: sum.splits if_splits)

lemma send_extends: "send s message len = Inr (bytes, s') \<Longrightarrow> prefix (wire s) (wire s')"
  by (auto simp: send_def Let_def split: list.splits send_outcome.splits if_splits)

lemma raw_loop_extends:
  "raw_loop message total_v sent s = Inr (r, s') \<Longrightarrow> prefix (wire s) (wire s')"
proof (induction message total_v sent s rule: raw_loop.induct)
  case (1 message total_v sent s)
  show ?case
  proof (cases "sent < total_v")
    case False
    with "1.prems" show ?thesis by (simp add: raw_loop.simps)
  next
    case True
    with "1.prems" obtain bytes s1 where snd: "send s message total_v = Inr (bytes, s1)"
      by (subst (asm) raw_loop.simps) (auto split: sum.splits)
    from send_extends [OF snd] have p1: "prefix (wire s) (wire s1)" .
    show ?thesis
    proof (cases "bytes = - 1")
      case True
      with \<open>sent < total_v\<close> snd "1.prems" have "wire s' = wire s1"
        by (subst (asm) raw_loop.simps) auto
      with p1 show ?thesis by simp
    next
      case False
      with \<open>sent < total_v\<close> snd "1.prems"
      have "raw_loop message total_v (sent + bytes) s1 = Inr (r, s')"
        by (subst (asm) raw_loop.simps) auto
      from "1.IH" [OF \<open>sent < total_v\<close> snd refl False this] p1 show ?thesis
        by (rule prefix_order.trans [rotated])
    qed
  qed
qed

lemma escpos_printer_raw_extends:
  "escpos_printer_raw message len s = Inr (r, s') \<Longrightarrow> prefix (wire s) (wire s')"
  by (auto simp: escpos_printer_raw_def split: sum.splits dest: raw_loop_extends)

lemma upload_loop_extends:
  "upload_loop pixel_bits i n result s = Inr (r, s') \<Longrightarrow> prefix (wire s) (wire s')"
proof (induction pixel_bits i n result s rule: upload_loop.induct)
  case (1 pixel_bits i n result s)
  show ?case
  proof (cases "i < n")
    case False
    with "1.prems" show ?thesis by (simp add: upload_loop.simps)
  next
    case True
    with "1.prems" obtain r1 s1
      where raw: "escpos_printer_raw (drop (nat (i * 4)) pixel_bits) 4 s = Inr (r1, s1)"
      by (subst (asm) upload_loop.simps) (auto split: sum.splits)
    from escpos_printer_raw_extends [OF raw] have p1: "prefix (wire s) (wire s1)" .
    show ?thesis
    proof (cases "r1 \<noteq> 0")
      case True
      with \<open>i < n\<close> raw "1.prems" have "s' = s1"
        by (subst (asm) upload_loop.simps) auto
      with p1 show ?thesis by simp
    next
      case False
      with \<open>i < n\<close> raw "1.prems"
      have "upload_loop pixel_bits (i + 1) n r1 s1 = Inr (r, s')"
        by (subst (asm) upload_loop.simps) auto
      from "1.IH" [OF \<open>i < n\<close> raw refl False this] p1 show ?thesis
        by (rule prefix_order.trans [rotated])
    qed
  qed
qed

lemma escpos_printer_upload_extends:
  assumes "escpos_printer_upload cfg pixel_bits w h s = Inr (r, s')"
  shows "prefix (wire s) (wire s')"
proof -
  let ?buffer = "strncpy (ESCPOS_CMD_DEFINE_DL_BIT_IMAGE cfg) 2
                   @ [word_of_int (w sdiv 8), word_of_int (h sdiv 8)]"
  from assms obtain r1 s1 where raw: "escpos_printer_raw ?buffer 4 s = Inr (r1, s1)"
    by (auto simp: escpos_printer_upload_def Let_def split: if_splits sum.splits)
  from assms raw obtain s2 where
    "(if r1 = 0 then upload_loop pixel_bits 0 ((w * (h sdiv 8)) sdiv 4) r1 s1 else Inr (r1, s1))
       = Inr (r, s2)" and s': "wire s' = wire s2"
    by (auto simp: escpos_printer_upload_def Let_def split: if_splits sum.splits)
  then have "prefix (wire s1) (wire s2)"
    by (auto split: if_splits dest: upload_loop_extends)
  with escpos_printer_raw_extends [OF raw] s' show ?thesis by (auto intro: prefix_order.trans)
qed

lemma escpos_printer_print_extends:
  "escpos_printer_print cfg s = Inr (r, s') \<Longrightarrow> prefix (wire s) (wire s')"
  by (auto simp: escpos_printer_print_def split: sum.splits if_splits
           dest!: escpos_printer_raw_extends)

lemma image_round_extends:
  assumes "image_round cfg im pixel_bits y s = Inr (r, pixel_bits', s')"
  shows "prefix (wire s) (wire s')"
proof -
  from assms obtain pb w h r1 s1 where
    up: "escpos_printer_upload cfg pb w h s = Inr (r1, s1)" and
    pr: "(if r1 = 0 then escpos_printer_print cfg s1 else Inr (r1, s1)) = Inr (r, s')"
    by (auto simp: image_round_def Let_def split: sum.splits prod.splits)
  from pr have "prefix (wire s1) (wire s')"
    by (auto split: if_splits dest: escpos_printer_print_extends)
  with escpos_printer_upload_extends [OF up] show ?thesis by (auto intro: prefix_order.trans)
qed

lemma run_rounds_extends:
  "run_rounds cfg im y n pixel_bits s = Some (pb1, s1) \<Longrightarrow> prefix (wire s) (wire s1)"
proof (induction n arbitrary: y pixel_bits s)
  case 0
  then show ?case by simp
next
  case (Suc n)
  from Suc.prems obtain pb' s' where
    rnd: "image_round cfg im pixel_bits y s = Inr (0, pb', s')"
    and rest: "run_rounds cfg im (y + 1) n pb' s' = Some (pb1, s1)"
    by (auto split: sum.splits if_splits)
  from image_round_extends [OF rnd] Suc.IH [OF rest] show ?case
    by (rule prefix_order.trans)
qed

text \<open>
  What a call that returns has done. Let the print height be positive and
  \<open>escpos_printer_image\<close> return \<open>r\<close>. Then some number \<open>n\<close> of rounds, at the
  cursors 0, 1, ... in this order, were performed and succeeded, each an upload
  followed by a print. If \<open>r = 0\<close>, \<open>n\<close> is the ceiling of \<open>H / printHeight\<close> and the
  world is the one these rounds left. If \<open>r \<noteq> 0\<close>, \<open>n\<close> is below that ceiling and
  the chunk at cursor \<open>n\<close> failed: either its upload returned \<open>r\<close>, the world is the
  one this upload left (no print, no later chunk) and \<open>last_error\<close> is the upload
  error, or its upload succeeded, its print returned \<open>r\<close>, the world is the one this
  print left and \<open>last_error\<close> is the print error. In both cases the bytes sent by
  the completed rounds stay a prefix of the wire. Nothing is said here about a call
  that stops at an assertion.
\<close>

lemma escpos_printer_image_rounds:
  assumes "0 < ESCPOS_CHUNK_DOT_HEIGHT cfg - ESCPOS_CHUNK_OVERLAP cfg" and "0 \<le> img_height im"
    and "escpos_printer_image cfg (Some im) junk s = Inr (r, s')"
  shows "\<exists>n pb1 s1.
           run_rounds cfg im 0 n
             (map junk [0 ..< nat ((ESCPOS_MAX_DOT_WIDTH cfg sdiv 8) * ESCPOS_CHUNK_DOT_HEIGHT cfg)]) s
             = Some (pb1, s1)
         \<and> prefix (wire s) (wire s1) \<and> prefix (wire s1) (wire s')
         \<and> (if r = 0
             then int n = (img_height im + (ESCPOS_CHUNK_DOT_HEIGHT cfg - ESCPOS_CHUNK_OVERLAP cfg) - 1)
                            div (ESCPOS_CHUNK_DOT_HEIGHT cfg - ESCPOS_CHUNK_OVERLAP cfg)
                \<and> s' = s1
             else int n < (img_height im + (ESCPOS_CHUNK_DOT_HEIGHT cfg - ESCPOS_CHUNK_OVERLAP cfg) - 1)
                            div (ESCPOS_CHUNK_DOT_HEIGHT cfg - ESCPOS_CHUNK_OVERLAP cfg)
                \<and> (\<exists>pb2 reads w h r1 s2.
                     convert_image_to_bits pb1 (img_data im)
                       (int n * (ESCPOS_CHUNK_DOT_HEIGHT cfg - ESCPOS_CHUNK_OVERLAP cfg)
                          * img_width im * img_comp im)
                       (img_width im) (chunk_height cfg (img_height im) (int n)) (img_comp im)
                       = Inr (pb2, reads, w, h)
                   \<and> escpos_printer_upload cfg pb2 w h s1 = Inr (r1, s2)
                   \<and> (if r1 \<noteq> 0
                       then r = r1 \<and> s' = s2
                          \<and> last_error s' = ESCPOS_ERROR_IMAGE_UPLOAD_FAILED
                       else escpos_printer_print cfg s2 = Inr (r, s')
                          \<and> last_error s' = ESCPOS_ERROR_IMAGE_PRINT_FAILED)))"
proof -
  let ?ph = "ESCPOS_CHUNK_DOT_HEIGHT cfg - ESCPOS_CHUNK_OVERLAP cfg"
  let ?pb0 = "map junk [0 ..< nat ((ESCPOS_MAX_DOT_WIDTH cfg sdiv 8) * ESCPOS_CHUNK_DOT_HEIGHT cfg)]"
  from assms(3) obtain k where loop: "image_loop cfg im ?pb0 0 0 s = Inr (r, k, s')"
    by (auto simp: escpos_printer_image_def Let_def split: sum.splits)
  from image_loop_rounds [OF loop] obtain pb1 s1 where
    k0: "0 \<le> k" and lastk: "0 < k \<longrightarrow> (k - 1) * ?ph < img_height im"
    and rr: "run_rounds cfg im 0 (nat k) ?pb0 s = Some (pb1, s1)"
    and fin: "if r = 0 then s' = s1 \<and> \<not> k * ?ph < img_height im
              else k * ?ph < img_height im
                 \<and> (\<exists>pb2. image_round cfg im pb1 k s1 = Inr (r, pb2, s'))"
    by auto
  have nk: "int (nat k) = k" using k0 by simp
  note p1 = run_rounds_extends [OF rr]
  show ?thesis
  proof (cases "r = 0")
    case True
    with fin have "s' = s1" and "\<not> k * ?ph < img_height im" by simp_all
    with rounds_is_ceiling [OF assms(1,2) k0 lastk] rr True nk p1 show ?thesis
      by (intro exI [of _ "nat k"] exI [of _ pb1] exI [of _ s1]) simp
  next
    case False
    with fin obtain pb2 where lt: "k * ?ph < img_height im"
      and rnd: "image_round cfg im pb1 k s1 = Inr (r, pb2, s')" by auto
    from image_round_parts [OF rnd] obtain reads w h r1 s2 where
      pk: "convert_image_to_bits pb1 (img_data im) (k * ?ph * img_width im * img_comp im)
             (img_width im) (chunk_height cfg (img_height im) k) (img_comp im)
             = Inr (pb2, reads, w, h)"
      and up: "escpos_printer_upload cfg pb2 w h s1 = Inr (r1, s2)"
      and res: "if r1 \<noteq> 0 then r = r1 \<and> s' = s2 else escpos_printer_print cfg s2 = Inr (r, s')"
      by blast
    have att: "if r1 \<noteq> 0
               then r = r1 \<and> s' = s2 \<and> last_error s' = ESCPOS_ERROR_IMAGE_UPLOAD_FAILED
               else escpos_printer_print cfg s2 = Inr (r, s')
                  \<and> last_error s' = ESCPOS_ERROR_IMAGE_PRINT_FAILED"
      using res up False
      by (auto dest: escpos_printer_upload_failure escpos_printer_print_failure)
    note p2 = image_round_extends [OF rnd]
    from below_ceiling [OF assms(1) lt] rr False nk pk up att p1 p2 show ?thesis
      by (intro exI [of _ "nat k"] exI [of _ pb1] exI [of _ s1]) auto
  qed
qed

lemma escpos_printer_print_whole_write:
  assumes "outcomes s = Accepts k # rest" and "3 \<le> k"
    and "3 \<le> length (ESCPOS_CMD_PRINT_DL_BIT_IMAGE cfg)"
  shows "escpos_printer_print cfg s
           = Inr (0, s\<lparr>wire := wire s @ take 3 (ESCPOS_CMD_PRINT_DL_BIT_IMAGE cfg), outcomes := rest\<rparr>)"
  using assms
  by (simp add: escpos_printer_print_def escpos_printer_raw_def
        raw_loop.simps [of _ 3] send_def min_def)

lemma escpos_printer_upload_first_send_fails:
  assumes "0 < w" "w \<le> ESCPOS_CHUNK_DOT_HEIGHT cfg" "0 < h" "h \<le> ESCPOS_CHUNK_DOT_HEIGHT cfg"
      "w mod 32 = 0" "h mod 32 = 0" and "outcomes s = SendError # rest"
  shows "escpos_printer_upload cfg pixel_bits w h s
           = Inr (1, s\<lparr>outcomes := rest, last_error := ESCPOS_ERROR_IMAGE_UPLOAD_FAILED\<rparr>)"
proof -
  have sm: "w smod 32 = 0" "h smod 32 = 0" using assms by (simp_all add: smod_nonneg)
  show ?thesis
    using assms sm
    by (simp add: escpos_printer_upload_def escpos_printer_raw_def raw_loop.simps [of _ 4] send_def)
qed

text \<open>
  An image of two chunks whose second upload fails: exactly one round succeeds, the
  call returns 1 and reports the upload error.
\<close>

lemma escpos_printer_image_second_upload_fails:
  "\<exists>s'. escpos_printer_image small_config (Some tall_image) (\<lambda>i. 0) second_upload_fails = Inr (1, s')
      \<and> last_error s' = ESCPOS_ERROR_IMAGE_UPLOAD_FAILED
      \<and> outcomes s' = []
      \<and> (\<exists>pb1 s1. run_rounds small_config tall_image 0 1
                      (map (\<lambda>i. 0) [0 ..< nat ((ESCPOS_MAX_DOT_WIDTH small_config sdiv 8)
                                                * ESCPOS_CHUNK_DOT_HEIGHT small_config)])
                      second_upload_fails = Some (pb1, s1))
      \<and> (\<exists>n pb1 s1. run_rounds small_config tall_image 0 n
                      (map (\<lambda>i. 0) [0 ..< nat ((ESCPOS_MAX_DOT_WIDTH small_config sdiv 8)
                                                * ESCPOS_CHUNK_DOT_HEIGHT small_config)])
                      second_upload_fails = Some (pb1, s1)
            \<and> int n < 2 \<and> prefix (wire s1) (wire s'))"
proof -
  define pb0 where "pb0 = map (\<lambda>i. 0 :: byte) [0 ..< nat ((ESCPOS_MAX_DOT_WIDTH small_config sdiv 8)
                                                * ESCPOS_CHUNK_DOT_HEIGHT small_config)]"
  let ?mem = "replicate 1280 (0 :: byte)"
  have cfg: "ESCPOS_MAX_DOT_WIDTH small_config = 32" "ESCPOS_CHUNK_DOT_HEIGHT small_config = 32"
    "ESCPOS_CHUNK_OVERLAP small_config = 0"
    "ESCPOS_CMD_DEFINE_DL_BIT_IMAGE small_config = [0x1d, 0x2a, 0]"
    "ESCPOS_CMD_PRINT_DL_BIT_IMAGE small_config = [0x1d, 0x2f, 0, 0]"
    by (simp_all add: small_config_def)
  have im: "img_width tall_image = 32" "img_height tall_image = 40" "img_comp tall_image = 1"
    "img_data tall_image = ?mem"
    by (simp_all add: tall_image_def)
  have s0: "outcomes second_upload_fails
              = Accepts 4 # map Accepts (replicate 32 4) @ [Accepts 3, SendError]"
    by (simp add: second_upload_fails_def)
  have len_pb0: "length pb0 = 128" by (simp add: pb0_def cfg sdiv_nonneg)
  have pad: "calculate_padding 32 = (0, 0)" "calculate_padding 8 = (12, 12)"
    by (simp_all add: calculate_padding_def smod_nonneg sdiv_nonneg)
  have ch: "chunk_height small_config 40 0 = 32" "chunk_height small_config 40 1 = 8"
    by (simp_all add: chunk_height_def cfg)
  \<comment> \<open>the first round succeeds\<close>
  have "\<exists>bits' reads. convert_image_to_bits pb0 ?mem 0 32 32 1 = Inr (bits', reads, 32 + 0 + 0, 32 + (0 + 0))
          \<and> packed_upto (\<lambda>pi. padded_pixel ?mem 0 32 32 1 0 (pi div (32 + (0 + 0))) (pi mod (32 + (0 + 0))))
               (\<lambda>off. 0 \<le> off \<and> off < 0 + 32 * 32 * 1) pb0 ((32 + 0 + 0) * (32 + (0 + 0))) (bits', reads)"
    by (rule pack_correct) (simp_all add: pad len_pb0)
  then obtain bits0 reads0 where
    pk0: "convert_image_to_bits pb0 ?mem 0 32 32 1 = Inr (bits0, reads0, 32, 32)"
    and len0: "length bits0 = 128"
    by (auto simp: packed_upto_def len_pb0)
  define sA where "sA = second_upload_fails
      \<lparr>wire := wire second_upload_fails @ [0x1d, 0x2a, word_of_int (32 div 8), word_of_int (32 div 8)]
                 @ take (nat (32 * 32 div 8)) bits0,
       outcomes := [Accepts 3, SendError]\<rparr>"
  have up0: "escpos_printer_upload small_config bits0 32 32 second_upload_fails = Inr (0, sA)"
    unfolding sA_def
    by (rule escpos_printer_upload_whole_writes [where k = 4 and ks = "replicate 32 4" and ps = "[0]"])
       (simp_all add: cfg s0 len0)
  define sB where "sB = sA\<lparr>wire := wire sA @ take 3 (ESCPOS_CMD_PRINT_DL_BIT_IMAGE small_config),
                           outcomes := [SendError]\<rparr>"
  have pr0: "escpos_printer_print small_config sA = Inr (0, sB)"
    unfolding sB_def
    by (rule escpos_printer_print_whole_write [where k = 3]) (simp_all add: sA_def cfg)
  have rnd0: "image_round small_config tall_image pb0 0 second_upload_fails = Inr (0, bits0, sB)"
    by (simp add: image_round_def im ch pk0 up0 pr0)
  \<comment> \<open>the upload of the second round fails on its first write\<close>
  have "\<exists>bits' reads. convert_image_to_bits bits0 ?mem 1024 32 8 1 = Inr (bits', reads, 32 + 0 + 0, 8 + (12 + 12))
          \<and> packed_upto (\<lambda>pi. padded_pixel ?mem 1024 32 8 1 0 (pi div (8 + (12 + 12))) (pi mod (8 + (12 + 12))))
               (\<lambda>off. 1024 \<le> off \<and> off < 1024 + 32 * 8 * 1) bits0 ((32 + 0 + 0) * (8 + (12 + 12))) (bits', reads)"
    by (rule pack_correct) (simp_all add: pad len0)
  then obtain bits1 reads1 where
    pk1: "convert_image_to_bits bits0 ?mem 1024 32 8 1 = Inr (bits1, reads1, 32, 32)"
    by auto
  define sC where "sC = sB\<lparr>outcomes := [], last_error := ESCPOS_ERROR_IMAGE_UPLOAD_FAILED\<rparr>"
  have up1: "escpos_printer_upload small_config bits1 32 32 sB = Inr (1, sC)"
    unfolding sC_def
    by (rule escpos_printer_upload_first_send_fails) (simp_all add: cfg sB_def)
  have rnd1: "image_round small_config tall_image bits0 1 sB = Inr (1, bits1, sC)"
    by (simp add: image_round_def im ch cfg pk1 up1)
  have loop: "image_loop small_config tall_image pb0 0 0 second_upload_fails = Inr (1, 1, sC)"
    by (subst image_loop.simps, simp add: cfg im rnd0)
       (subst image_loop.simps, simp add: cfg im rnd1)
  have run: "escpos_printer_image small_config (Some tall_image) (\<lambda>i. 0) second_upload_fails
               = Inr (1, sC)"
    by (simp add: escpos_printer_image_def Let_def pb0_def [symmetric] loop)
  have one: "run_rounds small_config tall_image 0 1 pb0 second_upload_fails = Some (bits0, sB)"
    by (simp add: rnd0)
  have "\<exists>n pb1 s1. run_rounds small_config tall_image 0 n pb0 second_upload_fails = Some (pb1, s1)
          \<and> int n < 2 \<and> prefix (wire s1) (wire sC)"
    using escpos_printer_image_rounds [of small_config tall_image "\<lambda>i. 0" second_upload_fails 1 sC] run
    unfolding pb0_def by (simp add: cfg im) blast
  moreover have "last_error sC = ESCPOS_ERROR_IMAGE_UPLOAD_FAILED" "outcomes sC = []"
    by (simp_all add: sC_def)
  ultimately show ?thesis using run one unfolding pb0_def by blast
qed

text \<open>
  With no overlap and every write accepted the same image is printed in two rounds:
  the call returns 0, and the wire holds, for each chunk in order, the header, the 128
  bytes the packer produced for it and the print command.
\<close>

lemma escpos_printer_image_two_chunks_no_overlap:
  "\<exists>pb1 reads1 pb2 reads2 s2.
      convert_image_to_bits
        (map (\<lambda>i. 0) [0 ..< nat ((ESCPOS_MAX_DOT_WIDTH small_config sdiv 8)
                                  * ESCPOS_CHUNK_DOT_HEIGHT small_config)])
        (img_data tall_image) 0 32 32 1 = Inr (pb1, reads1, 32, 32)
    \<and> convert_image_to_bits pb1 (img_data tall_image) 1024 32 8 1 = Inr (pb2, reads2, 32, 32)
    \<and> escpos_printer_image small_config (Some tall_image) (\<lambda>i. 0) both_chunks_accepted = Inr (0, s2)
    \<and> run_rounds small_config tall_image 0 2
          (map (\<lambda>i. 0) [0 ..< nat ((ESCPOS_MAX_DOT_WIDTH small_config sdiv 8)
                                    * ESCPOS_CHUNK_DOT_HEIGHT small_config)])
          both_chunks_accepted = Some (pb2, s2)
    \<and> wire s2 = [0x1d, 0x2a, 4, 4] @ take 128 pb1 @ [0x1d, 0x2f, 0]
                @ [0x1d, 0x2a, 4, 4] @ take 128 pb2 @ [0x1d, 0x2f, 0]
    \<and> outcomes s2 = [] \<and> last_error s2 = ESCPOS_ERROR_SOCK
    \<and> (img_height tall_image
          + (ESCPOS_CHUNK_DOT_HEIGHT small_config - ESCPOS_CHUNK_OVERLAP small_config) - 1)
         div (ESCPOS_CHUNK_DOT_HEIGHT small_config - ESCPOS_CHUNK_OVERLAP small_config) = 2"
proof -
  define pb0 where "pb0 = map (\<lambda>i. 0 :: byte) [0 ..< nat ((ESCPOS_MAX_DOT_WIDTH small_config sdiv 8)
                                                * ESCPOS_CHUNK_DOT_HEIGHT small_config)]"
  let ?mem = "replicate 1280 (0 :: byte)"
  let ?rest = "Accepts 4 # map Accepts (replicate 32 4) @ [Accepts 3]"
  have cfg: "ESCPOS_MAX_DOT_WIDTH small_config = 32" "ESCPOS_CHUNK_DOT_HEIGHT small_config = 32"
    "ESCPOS_CHUNK_OVERLAP small_config = 0"
    "ESCPOS_CMD_DEFINE_DL_BIT_IMAGE small_config = [0x1d, 0x2a, 0]"
    "ESCPOS_CMD_PRINT_DL_BIT_IMAGE small_config = [0x1d, 0x2f, 0, 0]"
    by (simp_all add: small_config_def)
  have im: "img_width tall_image = 32" "img_height tall_image = 40" "img_comp tall_image = 1"
    "img_data tall_image = ?mem"
    by (simp_all add: tall_image_def)
  have s0: "outcomes both_chunks_accepted
              = Accepts 4 # map Accepts (replicate 32 4) @ Accepts 3 # ?rest"
    "wire both_chunks_accepted = []" "last_error both_chunks_accepted = ESCPOS_ERROR_SOCK"
    by (simp_all add: both_chunks_accepted_def)
  have len_pb0: "length pb0 = 128" by (simp add: pb0_def cfg sdiv_nonneg)
  have pad: "calculate_padding 32 = (0, 0)" "calculate_padding 8 = (12, 12)"
    by (simp_all add: calculate_padding_def smod_nonneg sdiv_nonneg)
  have ch: "chunk_height small_config 40 0 = 32" "chunk_height small_config 40 1 = 8"
    by (simp_all add: chunk_height_def cfg)
  \<comment> \<open>the round at cursor 0\<close>
  have "\<exists>bits' reads. convert_image_to_bits pb0 ?mem 0 32 32 1 = Inr (bits', reads, 32 + 0 + 0, 32 + (0 + 0))
          \<and> packed_upto (\<lambda>pi. padded_pixel ?mem 0 32 32 1 0 (pi div (32 + (0 + 0))) (pi mod (32 + (0 + 0))))
               (\<lambda>off. 0 \<le> off \<and> off < 0 + 32 * 32 * 1) pb0 ((32 + 0 + 0) * (32 + (0 + 0))) (bits', reads)"
    by (rule pack_correct) (simp_all add: pad len_pb0)
  then obtain bits0 reads0 where
    pk0: "convert_image_to_bits pb0 ?mem 0 32 32 1 = Inr (bits0, reads0, 32, 32)"
    and len0: "length bits0 = 128"
    by (auto simp: packed_upto_def len_pb0)
  define sA where "sA = both_chunks_accepted
      \<lparr>wire := wire both_chunks_accepted @ [0x1d, 0x2a, word_of_int (32 div 8), word_of_int (32 div 8)]
                 @ take (nat (32 * 32 div 8)) bits0,
       outcomes := Accepts 3 # ?rest\<rparr>"
  have up0: "escpos_printer_upload small_config bits0 32 32 both_chunks_accepted = Inr (0, sA)"
    unfolding sA_def
    by (rule escpos_printer_upload_whole_writes [where k = 4 and ks = "replicate 32 4" and ps = "[0]"])
       (simp_all add: cfg s0 len0)
  define sB where "sB = sA\<lparr>wire := wire sA @ take 3 (ESCPOS_CMD_PRINT_DL_BIT_IMAGE small_config),
                           outcomes := ?rest\<rparr>"
  have pr0: "escpos_printer_print small_config sA = Inr (0, sB)"
    unfolding sB_def
    by (rule escpos_printer_print_whole_write [where k = 3]) (simp_all add: sA_def cfg)
  have rnd0: "image_round small_config tall_image pb0 0 both_chunks_accepted = Inr (0, bits0, sB)"
    by (simp add: image_round_def im ch pk0 up0 pr0)
  \<comment> \<open>the round at cursor 1\<close>
  have "\<exists>bits' reads. convert_image_to_bits bits0 ?mem 1024 32 8 1 = Inr (bits', reads, 32 + 0 + 0, 8 + (12 + 12))
          \<and> packed_upto (\<lambda>pi. padded_pixel ?mem 1024 32 8 1 0 (pi div (8 + (12 + 12))) (pi mod (8 + (12 + 12))))
               (\<lambda>off. 1024 \<le> off \<and> off < 1024 + 32 * 8 * 1) bits0 ((32 + 0 + 0) * (8 + (12 + 12))) (bits', reads)"
    by (rule pack_correct) (simp_all add: pad len0)
  then obtain bits1 reads1 where
    pk1: "convert_image_to_bits bits0 ?mem 1024 32 8 1 = Inr (bits1, reads1, 32, 32)"
    and len1: "length bits1 = 128"
    by (auto simp: packed_upto_def len0)
  define sC where "sC = sB
      \<lparr>wire := wire sB @ [0x1d, 0x2a, word_of_int (32 div 8), word_of_int (32 div 8)]
                 @ take (nat (32 * 32 div 8)) bits1,
       outcomes := [Accepts 3]\<rparr>"
  have up1: "escpos_printer_upload small_config bits1 32 32 sB = Inr (0, sC)"
    unfolding sC_def
    by (rule escpos_printer_upload_whole_writes [where k = 4 and ks = "replicate 32 4" and ps = "[0]"])
       (simp_all add: cfg sB_def len1)
  define sD where "sD = sC\<lparr>wire := wire sC @ take 3 (ESCPOS_CMD_PRINT_DL_BIT_IMAGE small_config),
                           outcomes := []\<rparr>"
  have pr1: "escpos_printer_print small_config sC = Inr (0, sD)"
    unfolding sD_def
    by (rule escpos_printer_print_whole_write [where k = 3]) (simp_all add: sC_def cfg)
  have rnd1: "image_round small_config tall_image bits0 1 sB = Inr (0, bits1, sD)"
    by (simp add: image_round_def im ch cfg pk1 up1 pr1)
  have loop: "image_loop small_config tall_image pb0 0 0 both_chunks_accepted = Inr (0, 2, sD)"
    by (subst image_loop.simps, simp add: cfg im rnd0)
       (subst image_loop.simps, simp add: cfg im rnd1, subst image_loop.simps, simp add: cfg im)
  have run: "escpos_printer_image small_config (Some tall_image) (\<lambda>i. 0) both_chunks_accepted
               = Inr (0, sD)"
    by (simp add: escpos_printer_image_def Let_def pb0_def [symmetric] loop)
  have two: "run_rounds small_config tall_image 0 2 pb0 both_chunks_accepted = Some (bits1, sD)"
    by (simp add: numeral_2_eq_2 rnd0 rnd1)
  have wD: "wire sD = [0x1d, 0x2a, 4, 4] @ take 128 bits0 @ [0x1d, 0x2f, 0]
                @ [0x1d, 0x2a, 4, 4] @ take 128 bits1 @ [0x1d, 0x2f, 0]"
    "outcomes sD = []" "last_error sD = ESCPOS_ERROR_SOCK"
    by (simp_all add: sD_def sC_def sB_def sA_def s0 cfg)
  have ceil: "(img_height tall_image
          + (ESCPOS_CHUNK_DOT_HEIGHT small_config - ESCPOS_CHUNK_OVERLAP small_config) - 1)
         div (ESCPOS_CHUNK_DOT_HEIGHT small_config - ESCPOS_CHUNK_OVERLAP small_config) = 2"
    by (simp add: cfg im)
  show ?thesis
    unfolding pb0_def [symmetric] im
    using pk0 pk1 run two wD ceil [unfolded im] by blast
qed

text \<open>A chunk of no rows: the packer writes nothing and reports the height 0.\<close>

lemma for_loop_skip:
  assumes "\<And>j t. body j t = Inr t"
  shows "for_loop i n body s = Inr s"
  using assms
proof (induction i n body s rule: for_loop.induct)
  case (1 i n body s)
  show ?case
  proof (cases "i < n")
    case True
    have b: "body i s = Inr s" by (rule "1.prems")
    have "for_loop (i + 1) n body s = Inr s"
      by (rule "1.IH" [OF True b]) (rule "1.prems")
    with True b show ?thesis by (subst for_loop.simps) simp
  next
    case False
    then show ?thesis by (simp add: for_loop.simps)
  qed
qed

lemma convert_image_to_bits_no_rows:
  assumes "calculate_padding w = (pl, pr)"
  shows "convert_image_to_bits pixel_bits mem image_data w 0 ncomp
           = Inr (pixel_bits, [], w + pl + pr, 0)"
proof -
  have p0: "calculate_padding 0 = (0, 0)" by (simp add: calculate_padding_def)
  have inner: "for_loop 0 0 body st = Inr st" for body :: "int \<Rightarrow> pack_state \<Rightarrow> fault + pack_state" and st
    by (simp add: for_loop.simps)
  show ?thesis
    by (simp add: convert_image_to_bits_def assms p0 inner for_loop_skip)
qed

lemma escpos_printer_upload_no_rows:
  "escpos_printer_upload cfg pixel_bits w 0 s = Inl AssertionFailed"
  by (simp add: escpos_printer_upload_def)

text \<open>
  Claim C9 at an image of 32 by 32 pixels, with chunks of 32 rows, an overlap of 8 and
  a socket that accepts every write. The claim gives \<open>ceil (32 / 24) = 2\<close> rounds.
  The round at cursor 0 succeeds: the wire holds its header, its 128 bytes of data and
  the print command. At cursor 1 the loop still runs (\<open>24 < 32\<close>), the chunk height is
  \<open>32 - 1 * 32 = 0\<close>, the packer reports a bitmap of height 0 and
  \<open>escpos_printer_upload\<close> stops at its assertion \<open>h > 0\<close>. The call does not return:
  the second round is not performed although no upload and no print has failed.
\<close>

theorem escpos_printer_image_aborts_with_overlap:
  "(img_height square_image
      + (ESCPOS_CHUNK_DOT_HEIGHT overlap_config - ESCPOS_CHUNK_OVERLAP overlap_config) - 1)
     div (ESCPOS_CHUNK_DOT_HEIGHT overlap_config - ESCPOS_CHUNK_OVERLAP overlap_config) = 2
 \<and> chunk_height overlap_config (img_height square_image) 1 = 0
 \<and> (case run_rounds overlap_config square_image 0 1
             (map (\<lambda>i. 0) [0 ..< nat ((ESCPOS_MAX_DOT_WIDTH overlap_config sdiv 8)
                                       * ESCPOS_CHUNK_DOT_HEIGHT overlap_config)])
             every_write_accepted of
        None \<Rightarrow> False
      | Some (pb1, s1) \<Rightarrow>
          wire s1 = [0x1d, 0x2a, 4, 4] @ take 128 pb1 @ [0x1d, 0x2f, 0]
        \<and> outcomes s1 = Accepts 4 # map Accepts (replicate 32 4) @ [Accepts 3]
        \<and> image_round overlap_config square_image pb1 1 s1 = Inl AssertionFailed)
 \<and> run_rounds overlap_config square_image 0 2
       (map (\<lambda>i. 0) [0 ..< nat ((ESCPOS_MAX_DOT_WIDTH overlap_config sdiv 8)
                                 * ESCPOS_CHUNK_DOT_HEIGHT overlap_config)])
       every_write_accepted = None
 \<and> escpos_printer_image overlap_config (Some square_image) (\<lambda>i. 0) every_write_accepted
     = Inl AssertionFailed"
proof -
  define pb0 where "pb0 = map (\<lambda>i. 0 :: byte) [0 ..< nat ((ESCPOS_MAX_DOT_WIDTH overlap_config sdiv 8)
                                                * ESCPOS_CHUNK_DOT_HEIGHT overlap_config)]"
  let ?mem = "replicate 1024 (0 :: byte)"
  let ?rest = "Accepts 4 # map Accepts (replicate 32 4) @ [Accepts 3]"
  have cfg: "ESCPOS_MAX_DOT_WIDTH overlap_config = 32" "ESCPOS_CHUNK_DOT_HEIGHT overlap_config = 32"
    "ESCPOS_CHUNK_OVERLAP overlap_config = 8"
    "ESCPOS_CMD_DEFINE_DL_BIT_IMAGE overlap_config = [0x1d, 0x2a, 0]"
    "ESCPOS_CMD_PRINT_DL_BIT_IMAGE overlap_config = [0x1d, 0x2f, 0, 0]"
    by (simp_all add: overlap_config_def)
  have im: "img_width square_image = 32" "img_height square_image = 32" "img_comp square_image = 1"
    "img_data square_image = ?mem"
    by (simp_all add: square_image_def)
  have s0: "outcomes every_write_accepted
              = Accepts 4 # map Accepts (replicate 32 4) @ Accepts 3 # ?rest"
    "wire every_write_accepted = []"
    by (simp_all add: every_write_accepted_def)
  have len_pb0: "length pb0 = 128" by (simp add: pb0_def cfg sdiv_nonneg)
  have pad: "calculate_padding 32 = (0, 0)"
    by (simp add: calculate_padding_def smod_nonneg sdiv_nonneg)
  have ch: "chunk_height overlap_config 32 0 = 32" "chunk_height overlap_config 32 1 = 0"
    by (simp_all add: chunk_height_def cfg)
  \<comment> \<open>the round at cursor 0 succeeds\<close>
  have "\<exists>bits' reads. convert_image_to_bits pb0 ?mem 0 32 32 1 = Inr (bits', reads, 32 + 0 + 0, 32 + (0 + 0))
          \<and> packed_upto (\<lambda>pi. padded_pixel ?mem 0 32 32 1 0 (pi div (32 + (0 + 0))) (pi mod (32 + (0 + 0))))
               (\<lambda>off. 0 \<le> off \<and> off < 0 + 32 * 32 * 1) pb0 ((32 + 0 + 0) * (32 + (0 + 0))) (bits', reads)"
    by (rule pack_correct) (simp_all add: pad len_pb0)
  then obtain bits0 reads0 where
    pk0: "convert_image_to_bits pb0 ?mem 0 32 32 1 = Inr (bits0, reads0, 32, 32)"
    and len0: "length bits0 = 128"
    by (auto simp: packed_upto_def len_pb0)
  define sA where "sA = every_write_accepted
      \<lparr>wire := wire every_write_accepted @ [0x1d, 0x2a, word_of_int (32 div 8), word_of_int (32 div 8)]
                 @ take (nat (32 * 32 div 8)) bits0,
       outcomes := Accepts 3 # ?rest\<rparr>"
  have up0: "escpos_printer_upload overlap_config bits0 32 32 every_write_accepted = Inr (0, sA)"
    unfolding sA_def
    by (rule escpos_printer_upload_whole_writes [where k = 4 and ks = "replicate 32 4" and ps = "[0]"])
       (simp_all add: cfg s0 len0)
  define sB where "sB = sA\<lparr>wire := wire sA @ take 3 (ESCPOS_CMD_PRINT_DL_BIT_IMAGE overlap_config),
                           outcomes := ?rest\<rparr>"
  have pr0: "escpos_printer_print overlap_config sA = Inr (0, sB)"
    unfolding sB_def
    by (rule escpos_printer_print_whole_write [where k = 3]) (simp_all add: sA_def cfg)
  have rnd0: "image_round overlap_config square_image pb0 0 every_write_accepted = Inr (0, bits0, sB)"
    by (simp add: image_round_def im ch pk0 up0 pr0)
  have wB: "wire sB = [0x1d, 0x2a, 4, 4] @ take 128 bits0 @ [0x1d, 0x2f, 0]"
    "outcomes sB = ?rest"
    by (simp_all add: sB_def sA_def s0 cfg)
  \<comment> \<open>the round at cursor 1 is handed no rows and stops at the assertion on the height\<close>
  have pk1: "convert_image_to_bits bits0 ?mem 768 32 0 1 = Inr (bits0, [], 32, 0)"
    using convert_image_to_bits_no_rows [OF pad, of bits0 ?mem 768 1] by simp
  have rnd1: "image_round overlap_config square_image bits0 1 sB = Inl AssertionFailed"
    by (simp add: image_round_def im ch cfg pk1 escpos_printer_upload_no_rows)
  have one: "run_rounds overlap_config square_image 0 1 pb0 every_write_accepted = Some (bits0, sB)"
    by (simp add: rnd0)
  have two: "run_rounds overlap_config square_image 0 2 pb0 every_write_accepted = None"
    by (simp add: numeral_2_eq_2 rnd0 rnd1)
  have loop: "image_loop overlap_config square_image pb0 0 0 every_write_accepted = Inl AssertionFailed"
    by (subst image_loop.simps, simp add: cfg im rnd0)
       (subst image_loop.simps, simp add: cfg im rnd1)
  have run: "escpos_printer_image overlap_config (Some square_image) (\<lambda>i. 0) every_write_accepted
               = Inl AssertionFailed"
    by (simp add: escpos_printer_image_def Let_def pb0_def [symmetric] loop)
  have ceil: "(img_height square_image
      + (ESCPOS_CHUNK_DOT_HEIGHT overlap_config - ESCPOS_CHUNK_OVERLAP overlap_config) - 1)
     div (ESCPOS_CHUNK_DOT_HEIGHT overlap_config - ESCPOS_CHUNK_OVERLAP overlap_config) = 2"
    by (simp add: cfg im)
  have ch1: "chunk_height overlap_config (img_height square_image) 1 = 0"
    by (simp add: im ch)
  show ?thesis
    unfolding pb0_def [symmetric]
    using ceil ch1 one two run wB rnd1 by simp
qed

end
